theory Spec2Isabelle
  imports Complex_Main
begin

section \<open>The LORD* threshold recursions of \<^verbatim>\<open>src/lordstar.cpp\<close>\<close>

text \<open>
  The file holds three exported procedures, \<^verbatim>\<open>lordstar_async_faster\<close>,
  \<^verbatim>\<open>lordstar_dep_faster\<close> and \<^verbatim>\<open>lordstar_batch_faster\<close>. Each is embedded
  below as a HOL function of the same name.

  Conventions of the embedding:
  \<^item> a \<^verbatim>\<open>double\<close> is a \<^typ>\<open>real\<close>: arithmetic is exact, rounding is not modelled;
  \<^item> an \<^verbatim>\<open>int\<close> is an \<^typ>\<open>int\<close>: unbounded, overflow is not modelled;
  \<^item> a \<^verbatim>\<open>NumericVector\<close>, \<^verbatim>\<open>IntegerVector\<close> or \<^verbatim>\<open>LogicalVector\<close>
    is a list; the vectors \<^verbatim>\<open>Rdec\<close>, \<^verbatim>\<open>Rlag\<close>, \<^verbatim>\<open>rcum\<close> and \<^verbatim>\<open>r\<close> are
    \<^verbatim>\<open>NumericVector\<close>s that only ever hold integers, and are lists of \<^typ>\<open>int\<close>;
  \<^item> \<^verbatim>\<open>v[k]\<close> does not check its index. An access outside \<open>0 \<le> k < size\<close> has no
    defined behaviour in the source; the embedding stops there with the value
    \<open>Inl OutOfBounds\<close>, so \<open>Inr\<close> results are exactly the runs in which every access
    was inside its vector;
  \<^item> \<^verbatim>\<open>std::upper_bound\<close> and Rcpp's \<^verbatim>\<open>max\<close>, \<^verbatim>\<open>rowSums\<close> and
    \<^verbatim>\<open>cumsum\<close> are library functions; each is embedded as the library computes it;
  \<^item> the \<^verbatim>\<open>Progress\<close> object, its \<^verbatim>\<open>increment()\<close> calls, the parameter
    \<^verbatim>\<open>display_progress\<close> and the counter \<^verbatim>\<open>mysum\<close> that only feeds it are left out.
\<close>

subsection \<open>Faults, reads and writes\<close>

datatype fault = OutOfBounds | EmptyMax | NegativeExtent

text \<open>Sequencing: the first fault ends the run.\<close>

definition and_then :: "fault + 'a \<Rightarrow> ('a \<Rightarrow> fault + 'b) \<Rightarrow> fault + 'b" where
  "and_then m f = (case m of Inl e \<Rightarrow> Inl e | Inr x \<Rightarrow> f x)"

text \<open>\<^verbatim>\<open>v[k]\<close> as a read and \<^verbatim>\<open>v[k] = x\<close> as a write.\<close>

definition rd :: "'a list \<Rightarrow> int \<Rightarrow> fault + 'a" where
  "rd v k = (if 0 \<le> k \<and> k < int (length v) then Inr (v ! nat k) else Inl OutOfBounds)"

definition wr :: "'a list \<Rightarrow> int \<Rightarrow> 'a \<Rightarrow> fault + 'a list" where
  "wr v k x = (if 0 \<le> k \<and> k < int (length v) then Inr (v[nat k := x]) else Inl OutOfBounds)"

text \<open>
  \<^verbatim>\<open>for (int i = a; i < n; i++) body\<close> with a bound \<open>n\<close> that the body does not change
  (true of every loop of the file). The body maps the loop variable and the state to the
  next state or to a fault.
\<close>

function for_loop :: "int \<Rightarrow> int \<Rightarrow> (int \<Rightarrow> 's \<Rightarrow> fault + 's) \<Rightarrow> 's \<Rightarrow> fault + 's" where
  "for_loop i n body s =
     (if i < n then
        (case body i s of Inl e \<Rightarrow> Inl e | Inr s' \<Rightarrow> for_loop (i + 1) n body s')
      else Inr s)"
  by pat_completeness auto
termination
  by (relation "measure (\<lambda>(i, n, body, s). nat (n - i))") auto

declare for_loop.simps [simp del]

subsection \<open>\<^verbatim>\<open>max\<close> and \<^verbatim>\<open>upper_bound\<close>\<close>

text \<open>
  Rcpp's \<^verbatim>\<open>max(v)\<close> starts from \<^verbatim>\<open>v[0]\<close> and replaces the running maximum by every
  later element that is greater. On an empty vector it has no integer to return.
\<close>

fun maxv :: "int list \<Rightarrow> fault + int" where
  "maxv [] = Inl EmptyMax"
| "maxv (x # xs) = Inr (fold (\<lambda>current mx. if current > mx then current else mx) xs x)"

text \<open>
  \<^verbatim>\<open>std::upper_bound(first, last, val)\<close> as the standard library implements it: a
  binary search that keeps a start position and a length, halves the length while
  \<^verbatim>\<open>val < *middle\<close> and otherwise continues behind \<^verbatim>\<open>middle\<close>. The value returned
  is the distance from \<^verbatim>\<open>begin()\<close>.
\<close>

function upper_bound_loop :: "int list \<Rightarrow> int \<Rightarrow> nat \<Rightarrow> nat \<Rightarrow> nat" where
  "upper_bound_loop v val first len =
     (if len > 0 then
        (let half = len div 2; middle = first + half in
         if val < v ! middle then upper_bound_loop v val first half
         else upper_bound_loop v val (middle + 1) (len - half - 1))
      else first)"
  by pat_completeness auto
termination
  by (relation "measure (\<lambda>(v, val, first, len). len)") auto

declare upper_bound_loop.simps [simp del]

definition upper_bound :: "int list \<Rightarrow> int \<Rightarrow> int" where
  "upper_bound v val = int (upper_bound_loop v val 0 (length v))"

text \<open>
  The inversion of a count sequence (lines 50-53, 124-127 and 197-200):
  \<^verbatim>\<open>for (int y = 0; y < max(c); y++) r.push_back(upper_bound(c.begin(), c.end(), y) - c.begin())\<close>
  with \<open>m\<close> the value of \<^verbatim>\<open>max(c)\<close>.
\<close>

definition invert_counts :: "int list \<Rightarrow> int \<Rightarrow> int list" where
  "invert_counts c m = map (\<lambda>y. upper_bound c y) [0..m - 1]"

subsection \<open>The threshold of one step (lines 56-81, repeated as lines 129-154)\<close>

text \<open>
  \<^verbatim>\<open>for (int g = 1; g < bound; g++) gammaisum += gammai[i-r[g]-1]\<close>: the loop visits
  \<open>r[1], r[2], \<dots>\<close> in order, which are the elements of \<open>tl r\<close>.
\<close>

fun gammaisum_loop :: "real list \<Rightarrow> int \<Rightarrow> int list \<Rightarrow> real \<Rightarrow> fault + real" where
  "gammaisum_loop gammai i [] gammaisum = Inr gammaisum"
| "gammaisum_loop gammai i (rg # rs) gammaisum =
     and_then (rd gammai (i - rg - 1)) (\<lambda>x. gammaisum_loop gammai i rs (gammaisum + x))"

definition threshold :: "real list \<Rightarrow> real \<Rightarrow> real \<Rightarrow> int \<Rightarrow> int list \<Rightarrow> fault + real" where
  "threshold gammai w0 alpha i r =
     (if length r \<le> 1 then
        (if length r > 0 then
           and_then (rd gammai i) (\<lambda>gi.
           and_then (rd gammai (i - r ! 0 - 1)) (\<lambda>g0.
           Inr (gi * w0 + (alpha - w0) * g0)))
         else
           and_then (rd gammai i) (\<lambda>gi. Inr (gi * w0)))
      else
        and_then (gammaisum_loop gammai i (tl r) 0) (\<lambda>gammaisum.
        and_then (rd gammai i) (\<lambda>gi.
        and_then (rd gammai (i - r ! 0 - 1)) (\<lambda>g0.
        Inr (gi * w0 + (alpha - w0) * g0 + alpha * gammaisum)))))"

text \<open>
  The state of the async and the dependency loop: the thresholds, the decisions and the
  vector of visible-rejection counts (\<^verbatim>\<open>Rdec\<close> in the async procedure, \<^verbatim>\<open>Rlag\<close> in
  the dependency procedure).
\<close>

record history =
  alphai :: "real list"
  R :: "bool list"
  Rvis :: "int list"

text \<open>
  \<^verbatim>\<open>alphai[i] = \<dots>; R[i] = (pval[i] <= alphai[i])\<close> for the positions \<open>r\<close>, with the
  counts \<open>c\<close> already extended by this step's count.
\<close>

definition decide ::
  "real list \<Rightarrow> real list \<Rightarrow> real \<Rightarrow> real \<Rightarrow> int \<Rightarrow> int list \<Rightarrow> int list \<Rightarrow> history
     \<Rightarrow> fault + history" where
  "decide pval gammai w0 alpha i c r h =
     and_then (threshold gammai w0 alpha i r) (\<lambda>t.
     and_then (wr (alphai h) i t) (\<lambda>alphai'.
     and_then (rd pval i) (\<lambda>p.
     and_then (rd alphai' i) (\<lambda>a.
     and_then (wr (R h) i (p \<le> a)) (\<lambda>R'.
     Inr \<lparr>alphai = alphai', R = R', Rvis = c\<rparr>)))))"

text \<open>
  Lines 22-28 and 98-104: \<^verbatim>\<open>alphai\<close> and \<^verbatim>\<open>R\<close> of length \<open>N\<close>, zero-initialised, an
  empty count vector, and step 0.
\<close>

definition seed :: "real list \<Rightarrow> real list \<Rightarrow> real \<Rightarrow> fault + history" where
  "seed pval gammai w0 =
     (let N = length pval in
      and_then (rd gammai 0) (\<lambda>g0.
      and_then (wr (replicate N 0) 0 (g0 * w0)) (\<lambda>alphai'.
      and_then (rd pval 0) (\<lambda>p.
      and_then (rd alphai' 0) (\<lambda>a.
      and_then (wr (replicate N False) 0 (p \<le> a)) (\<lambda>R'.
      Inr \<lparr>alphai = alphai', R = R', Rvis = []\<rparr>))))))"

subsection \<open>\<^verbatim>\<open>lordstar_async_faster\<close>\<close>

text \<open>
  Lines 39-45: \<^verbatim>\<open>if (R[j] && (E[j]-1 <= i-1)) cond += 1\<close>; \<^verbatim>\<open>E[j]\<close> is read only
  when \<^verbatim>\<open>R[j]\<close> holds.
\<close>

definition async_scan :: "bool list \<Rightarrow> int list \<Rightarrow> int \<Rightarrow> int \<Rightarrow> int \<Rightarrow> fault + int" where
  "async_scan Rv E i j cond =
     and_then (rd Rv j) (\<lambda>rj.
       if rj then and_then (rd E j) (\<lambda>ej. Inr (if ej - 1 \<le> i - 1 then cond + 1 else cond))
       else Inr cond)"

definition async_step ::
  "real list \<Rightarrow> int list \<Rightarrow> real list \<Rightarrow> real \<Rightarrow> real \<Rightarrow> int \<Rightarrow> history \<Rightarrow> fault + history" where
  "async_step pval E gammai w0 alpha i h =
     and_then (for_loop 0 i (async_scan (R h) E i) 0) (\<lambda>cond.
     let Rdec = Rvis h @ [cond] in
     and_then (maxv Rdec) (\<lambda>m.
     let r = (if m > 0 then invert_counts Rdec m else []) in
     decide pval gammai w0 alpha i Rdec r h))"

text \<open>
  The whole run, with the count vector kept. Line 31 writes \<^verbatim>\<open>Rdectest[1]\<close> into a
  vector of length \<open>N\<close> that is never read afterwards.
\<close>

definition async_run ::
  "real list \<Rightarrow> int list \<Rightarrow> real list \<Rightarrow> real \<Rightarrow> real \<Rightarrow> fault + history" where
  "async_run pval E gammai w0 alpha =
     (let N = length pval in
      and_then (seed pval gammai w0) (\<lambda>h.
      and_then (wr (replicate N (0::real)) 1 1) (\<lambda>Rdectest.
      for_loop 1 (int N) (async_step pval E gammai w0 alpha) h)))"

text \<open>The data frame returned: \<^verbatim>\<open>pval\<close>, \<^verbatim>\<open>alphai\<close>, \<^verbatim>\<open>R\<close>.\<close>

definition lordstar_async_faster ::
  "real list \<Rightarrow> int list \<Rightarrow> real list \<Rightarrow> real \<Rightarrow> real \<Rightarrow> fault + (real list \<times> real list \<times> bool list)" where
  "lordstar_async_faster pval E gammai w0 alpha =
     and_then (async_run pval E gammai w0 alpha) (\<lambda>h. Inr (pval, alphai h, R h))"

subsection \<open>\<^verbatim>\<open>lordstar_dep_faster\<close>\<close>

text \<open>Lines 112-120. \<^verbatim>\<open>L[i]\<close> is read once the step starts.\<close>

definition dep_scan :: "bool list \<Rightarrow> int \<Rightarrow> int \<Rightarrow> fault + int" where
  "dep_scan Rv j cond = and_then (rd Rv j) (\<lambda>rj. Inr (if rj then cond + 1 else cond))"

definition dep_step ::
  "real list \<Rightarrow> int list \<Rightarrow> real list \<Rightarrow> real \<Rightarrow> real \<Rightarrow> int \<Rightarrow> history \<Rightarrow> fault + history" where
  "dep_step pval L gammai w0 alpha i h =
     and_then (rd L i) (\<lambda>Li.
     and_then (if i - 1 - Li \<ge> 0 then for_loop 0 (i - Li) (dep_scan (R h)) 0 else Inr 0) (\<lambda>cond.
     let Rlag = Rvis h @ [cond] in
     and_then (maxv Rlag) (\<lambda>m.
     let r = invert_counts Rlag m in
     decide pval gammai w0 alpha i Rlag r h)))"

definition dep_run ::
  "real list \<Rightarrow> int list \<Rightarrow> real list \<Rightarrow> real \<Rightarrow> real \<Rightarrow> fault + history" where
  "dep_run pval L gammai w0 alpha =
     (let N = length pval in
      and_then (seed pval gammai w0) (\<lambda>h.
      for_loop 1 (int N) (dep_step pval L gammai w0 alpha) h))"

text \<open>The data frame returned: \<^verbatim>\<open>pval\<close>, \<^verbatim>\<open>lag\<close>, \<^verbatim>\<open>alphai\<close>, \<^verbatim>\<open>R\<close>.\<close>

definition lordstar_dep_faster ::
  "real list \<Rightarrow> int list \<Rightarrow> real list \<Rightarrow> real \<Rightarrow> real
     \<Rightarrow> fault + (real list \<times> int list \<times> real list \<times> bool list)" where
  "lordstar_dep_faster pval L gammai w0 alpha =
     and_then (dep_run pval L gammai w0 alpha) (\<lambda>h. Inr (pval, L, alphai h, R h))"

subsection \<open>\<^verbatim>\<open>lordstar_batch_faster\<close>\<close>

text \<open>
  A matrix is the list of its rows. \<^verbatim>\<open>m(b, x)\<close> is unchecked like \<^verbatim>\<open>v[k]\<close>; the
  embedding faults outside the row and column range.
\<close>

definition mrd :: "'a list list \<Rightarrow> int \<Rightarrow> int \<Rightarrow> fault + 'a" where
  "mrd m b x = and_then (rd m b) (\<lambda>row. rd row x)"

definition mwr :: "'a list list \<Rightarrow> int \<Rightarrow> int \<Rightarrow> 'a \<Rightarrow> fault + 'a list list" where
  "mwr m b x v = and_then (rd m b) (\<lambda>row. and_then (wr row x v) (\<lambda>row'. wr m b row'))"

record batch_state =
  alphaim :: "real list list"
  Rm :: "bool list list"

text \<open>\<^verbatim>\<open>rowSums(R)\<close> counts the true cells of each row; \<^verbatim>\<open>cumsum\<close> are the running sums.\<close>

definition rowSums :: "bool list list \<Rightarrow> int list" where
  "rowSums m = map (\<lambda>row. int (length (filter id row))) m"

fun cumsum_from :: "int \<Rightarrow> int list \<Rightarrow> int list" where
  "cumsum_from s [] = []"
| "cumsum_from s (x # xs) = (s + x) # cumsum_from (s + x) xs"

definition cumsum :: "int list \<Rightarrow> int list" where
  "cumsum xs = cumsum_from 0 xs"

text \<open>Lines 185-188, the body for one \<open>i\<close> of batch 0.\<close>

definition batch0_body ::
  "real list \<Rightarrow> real list \<Rightarrow> real \<Rightarrow> int \<Rightarrow> batch_state \<Rightarrow> fault + batch_state" where
  "batch0_body pval gammai w0 i s =
     and_then (rd gammai i) (\<lambda>gi.
     and_then (mwr (alphaim s) 0 i (gi * w0)) (\<lambda>alphai'.
     and_then (rd pval i) (\<lambda>p.
     and_then (mrd alphai' 0 i) (\<lambda>a.
     and_then (mwr (Rm s) 0 i (p \<le> a)) (\<lambda>R'.
     Inr \<lparr>alphaim = alphai', Rm = R'\<rparr>)))))"

text \<open>
  Lines 215-217: \<^verbatim>\<open>gammaisum += gammai[batchsum[b-1] + x - batchsum[r[g]]]\<close>, with
  \<open>k\<close> the value of \<^verbatim>\<open>batchsum[b-1] + x\<close>.
\<close>

fun batch_gammaisum_loop ::
  "real list \<Rightarrow> int list \<Rightarrow> int \<Rightarrow> int list \<Rightarrow> real \<Rightarrow> fault + real" where
  "batch_gammaisum_loop gammai batchsum k [] gammaisum = Inr gammaisum"
| "batch_gammaisum_loop gammai batchsum k (rg # rs) gammaisum =
     and_then (rd batchsum rg) (\<lambda>bs.
     and_then (rd gammai (k - bs)) (\<lambda>x.
     batch_gammaisum_loop gammai batchsum k rs (gammaisum + x)))"

text \<open>Lines 203-222, the value assigned to \<^verbatim>\<open>alphai(b,x)\<close>.\<close>

definition batch_threshold ::
  "real list \<Rightarrow> int list \<Rightarrow> real \<Rightarrow> real \<Rightarrow> int \<Rightarrow> int \<Rightarrow> int list \<Rightarrow> fault + real" where
  "batch_threshold gammai batchsum w0 alpha b x r =
     and_then (rd batchsum (b - 1)) (\<lambda>bs1.
     if length r \<le> 1 then
       (if length r > 0 then
          and_then (rd gammai (bs1 + x)) (\<lambda>gi.
          and_then (rd batchsum (r ! 0)) (\<lambda>bs0.
          and_then (rd gammai (bs1 + x - bs0)) (\<lambda>g0.
          Inr (gi * w0 + (alpha - w0) * g0))))
        else
          and_then (rd gammai (bs1 + x)) (\<lambda>gi. Inr (gi * w0)))
     else
       and_then (batch_gammaisum_loop gammai batchsum (bs1 + x) (tl r) 0) (\<lambda>gammaisum.
       and_then (rd gammai (bs1 + x)) (\<lambda>gi.
       and_then (rd batchsum (r ! 0)) (\<lambda>bs0.
       and_then (rd gammai (bs1 + x - bs0)) (\<lambda>g0.
       Inr (gi * w0 + (alpha - w0) * g0 + alpha * gammaisum))))))"

text \<open>Lines 193-224, the body for one \<open>x\<close> of batch \<open>b\<close>.\<close>

definition batch_body ::
  "real list \<Rightarrow> int list \<Rightarrow> real list \<Rightarrow> real \<Rightarrow> real \<Rightarrow> int \<Rightarrow> int list \<Rightarrow> int
     \<Rightarrow> batch_state \<Rightarrow> fault + batch_state" where
  "batch_body pval batchsum gammai w0 alpha b rcum x s =
     and_then (maxv rcum) (\<lambda>m.
     let r = (if m > 0 then invert_counts rcum m else []) in
     and_then (batch_threshold gammai batchsum w0 alpha b x r) (\<lambda>t.
     and_then (mwr (alphaim s) b x t) (\<lambda>alphai'.
     and_then (rd batchsum (b - 1)) (\<lambda>bs1.
     and_then (rd pval (bs1 + x)) (\<lambda>p.
     and_then (mrd alphai' b x) (\<lambda>a.
     and_then (mwr (Rm s) b x (p \<le> a)) (\<lambda>R'.
     Inr \<lparr>alphaim = alphai', Rm = R'\<rparr>)))))))"

text \<open>Lines 190-225, the body for one batch \<open>b\<close>.\<close>

definition batch_step ::
  "real list \<Rightarrow> int list \<Rightarrow> int list \<Rightarrow> real list \<Rightarrow> real \<Rightarrow> real \<Rightarrow> int
     \<Rightarrow> batch_state \<Rightarrow> fault + batch_state" where
  "batch_step pval batch batchsum gammai w0 alpha b s =
     (let rcum = cumsum (rowSums (Rm s)) in
      and_then (rd batch b) (\<lambda>nb.
      for_loop 0 nb (batch_body pval batchsum gammai w0 alpha b rcum) s))"

text \<open>
  The two matrices have \<open>B\<close> rows and \<^verbatim>\<open>max(batch)\<close> columns. \<^verbatim>\<open>max\<close> of an empty
  \<^verbatim>\<open>batch\<close> is no integer, and a negative number of columns is refused when the
  matrix is allocated. The list returned holds \<^verbatim>\<open>alphai\<close> and \<^verbatim>\<open>R\<close>.
\<close>

definition lordstar_batch_faster ::
  "real list \<Rightarrow> int list \<Rightarrow> int list \<Rightarrow> real list \<Rightarrow> real \<Rightarrow> real \<Rightarrow> fault + batch_state" where
  "lordstar_batch_faster pval batch batchsum gammai w0 alpha =
     (let B = length batch in
      and_then (maxv batch) (\<lambda>M.
      if M < 0 then Inl NegativeExtent else
      let s0 = \<lparr>alphaim = replicate B (replicate (nat M) 0),
                Rm = replicate B (replicate (nat M) False)\<rparr> in
      and_then (rd batch 0) (\<lambda>n0.
      and_then (for_loop 0 n0 (batch0_body pval gammai w0) s0) (\<lambda>s1.
      for_loop 1 (int B) (batch_step pval batch batchsum gammai w0 alpha) s1))))"

subsection \<open>Reference counts and the loop invariant\<close>

text \<open>
  These are not code of the program. \<open>async_visible\<close> says, in terms of the decisions
  \<open>Rv\<close>, which count step \<open>i\<close> of the async procedure appends: the number of rejections
  \<open>j < i\<close> with \<^verbatim>\<open>E[j]-1 <= i-1\<close>.
\<close>

definition async_visible :: "bool list \<Rightarrow> int list \<Rightarrow> nat \<Rightarrow> int" where
  "async_visible Rv E i =
     int (length (filter (\<lambda>j. Rv ! j \<and> E ! j - 1 \<le> int i - 1) [0..<i]))"

text \<open>
  The invariant of the async and the dependency loop before step \<open>i\<close>: the vectors keep
  their lengths, steps below \<open>i\<close> are decided by their thresholds, steps from \<open>i\<close> on are
  still unset, step 0 holds its seed, and the threshold of every earlier step \<open>k\<close> is the one
  computed from the first \<open>k\<close> counts.
\<close>

definition hist_inv :: "real list \<Rightarrow> real list \<Rightarrow> real \<Rightarrow> real \<Rightarrow> nat \<Rightarrow> history \<Rightarrow> bool" where
  "hist_inv pval gammai w0 alpha i h \<longleftrightarrow>
     length (alphai h) = length pval \<and> length (R h) = length pval \<and>
     Suc (length (Rvis h)) = i \<and>
     (\<forall>k<i. R h ! k = (pval ! k \<le> alphai h ! k)) \<and>
     (\<forall>k. i \<le> k \<and> k < length pval \<longrightarrow> \<not> R h ! k) \<and>
     alphai h ! 0 = gammai ! 0 * w0 \<and>
     (\<forall>k. 1 \<le> k \<and> k < i \<longrightarrow>
        (\<exists>m. maxv (take k (Rvis h)) = Inr m \<and>
             threshold gammai w0 alpha (int k) (invert_counts (take k (Rvis h)) m)
               = Inr (alphai h ! k)))"

text \<open>
  The position in \<^verbatim>\<open>pval\<close> and \<^verbatim>\<open>gammai\<close> that the batch procedure uses for
  test \<open>x\<close> of batch \<open>b\<close>: \<open>x\<close> itself in batch 0 (line 186) and
  \<^verbatim>\<open>batchsum[b-1] + x\<close> in a later batch (lines 205-221).
\<close>

definition test_index :: "int list \<Rightarrow> nat \<Rightarrow> nat \<Rightarrow> int" where
  "test_index batchsum b x = (if b = 0 then int x else batchsum ! (b - 1) + int x)"

text \<open>
  The invariant of the batch loops when batches below \<open>b\<close> and the tests below \<open>x\<close> of
  batch \<open>b\<close> are done: both matrices have one row per batch and \<open>M\<close> columns, every
  finished cell is decided by its threshold and has its position inside \<open>pval\<close> and
  \<open>gammai\<close>, the finished cells of batch 0 hold their seeds, and no threshold is negative
  if no entry of \<open>gammai\<close> is and \<open>0 \<le> w0 \<le> alpha\<close>.
\<close>

definition batch_inv ::
  "real list \<Rightarrow> int list \<Rightarrow> int list \<Rightarrow> real list \<Rightarrow> real \<Rightarrow> real \<Rightarrow> nat \<Rightarrow> nat \<Rightarrow> nat
     \<Rightarrow> batch_state \<Rightarrow> bool" where
  "batch_inv pval batch batchsum gammai w0 alpha M b x s \<longleftrightarrow>
     length (alphaim s) = length batch \<and> length (Rm s) = length batch \<and>
     (\<forall>row\<in>set (alphaim s). length row = M) \<and> (\<forall>row\<in>set (Rm s). length row = M) \<and>
     (\<forall>b' x'. (b' < b \<and> int x' < batch ! b') \<or> (b' = b \<and> x' < x) \<longrightarrow>
        0 \<le> test_index batchsum b' x' \<and> test_index batchsum b' x' < int (length pval) \<and>
        test_index batchsum b' x' < int (length gammai) \<and>
        Rm s ! b' ! x' = (pval ! nat (test_index batchsum b' x') \<le> alphaim s ! b' ! x')) \<and>
     (\<forall>x'. (0 < b \<and> int x' < batch ! 0) \<or> (b = 0 \<and> x' < x) \<longrightarrow>
        x' < length gammai \<and> alphaim s ! 0 ! x' = gammai ! x' * w0) \<and>
     ((\<forall>g\<in>set gammai. 0 \<le> g) \<and> 0 \<le> w0 \<and> w0 \<le> alpha \<longrightarrow>
        (\<forall>row\<in>set (alphaim s). \<forall>a\<in>set row. 0 \<le> a))"

text \<open>
  A history read as a batch state whose batches all have one test: every threshold and
  every decision is a row of one cell. Used to compare the batch procedure on unit batches
  with the dependency procedure.
\<close>

definition unit_rows :: "history \<Rightarrow> batch_state" where
  "unit_rows h = \<lparr>alphaim = map (\<lambda>v. [v]) (alphai h), Rm = map (\<lambda>v. [v]) (R h)\<rparr>"

section \<open>Basic facts\<close>

lemma and_then_Inl [simp]: "and_then (Inl e) f = Inl e"
  by (simp add: and_then_def)

lemma and_then_Inr [simp]: "and_then (Inr x) f = f x"
  by (simp add: and_then_def)

lemma and_then_eq_Inr: "and_then m f = Inr y \<longleftrightarrow> (\<exists>x. m = Inr x \<and> f x = Inr y)"
  by (cases m) simp_all

lemma rd_eq_Inr: "rd v k = Inr x \<longleftrightarrow> 0 \<le> k \<and> k < int (length v) \<and> x = v ! nat k"
  by (auto simp: rd_def)

lemma wr_eq_Inr: "wr v k x = Inr v' \<longleftrightarrow> 0 \<le> k \<and> k < int (length v) \<and> v' = v[nat k := x]"
  by (auto simp: wr_def)

lemma rd_in_range: "0 \<le> k \<Longrightarrow> k < int (length v) \<Longrightarrow> rd v k = Inr (v ! nat k)"
  by (simp add: rd_def)

lemma wr_in_range: "0 \<le> k \<Longrightarrow> k < int (length v) \<Longrightarrow> wr v k x = Inr (v[nat k := x])"
  by (simp add: wr_def)

lemma for_loop_done: "\<not> i < n \<Longrightarrow> for_loop i n body s = Inr s"
  by (simp add: for_loop.simps)

lemma for_loop_unfold:
  "i < n \<Longrightarrow> for_loop i n body s = and_then (body i s) (for_loop (i + 1) n body)"
  by (subst for_loop.simps) (simp add: and_then_def)

lemma for_loop_invariant:
  assumes "for_loop i n body s = Inr t" and "P i s" and "i \<le> n"
    and "\<And>k u u'. i \<le> k \<Longrightarrow> k < n \<Longrightarrow> P k u \<Longrightarrow> body k u = Inr u' \<Longrightarrow> P (k + 1) u'"
  shows "P n t"
  using assms
proof (induction i n body s rule: for_loop.induct)
  case (1 i n body s)
  show ?case
  proof (cases "i < n")
    case False
    with "1.prems" show ?thesis by (simp add: for_loop_done)
  next
    case True
    with "1.prems"(1) obtain s' where b: "body i s = Inr s'"
      and rest: "for_loop (i + 1) n body s' = Inr t"
      by (auto simp: for_loop_unfold and_then_eq_Inr)
    have "P (i + 1) s'"
      using "1.prems"(4)[of i s s'] True "1.prems"(2) b by simp
    moreover have "\<And>k u u'. i + 1 \<le> k \<Longrightarrow> k < n \<Longrightarrow> P k u \<Longrightarrow> body k u = Inr u'
        \<Longrightarrow> P (k + 1) u'"
      using "1.prems"(4) by simp
    ultimately show ?thesis
      using "1.IH"[OF True b rest] True by simp
  qed
qed

lemma maxv_eq_Inr: "maxv c = Inr m \<longleftrightarrow> c \<noteq> [] \<and> m = Max (set c)"
proof (cases c)
  case Nil
  then show ?thesis by simp
next
  case (Cons x xs)
  have "(\<lambda>current mx. if current > mx then current else mx) = (max :: int \<Rightarrow> int \<Rightarrow> int)"
    by (auto simp: fun_eq_iff max_def)
  then show ?thesis
    using Cons Max.set_eq_fold[of x xs] by auto
qed

lemma upper_bound_loop_sorted:
  assumes "sorted v" and "first + len \<le> length v"
    and "\<forall>k<first. v ! k \<le> val"
    and "\<forall>k. first + len \<le> k \<and> k < length v \<longrightarrow> val < v ! k"
  shows "first \<le> upper_bound_loop v val first len
       \<and> upper_bound_loop v val first len \<le> first + len
       \<and> (\<forall>k<upper_bound_loop v val first len. v ! k \<le> val)
       \<and> (\<forall>k. upper_bound_loop v val first len \<le> k \<and> k < length v \<longrightarrow> val < v ! k)"
  using assms
proof (induction v val first len rule: upper_bound_loop.induct)
  case (1 v val first len)
  show ?case
  proof (cases "len > 0")
    case False
    then show ?thesis
      using "1.prems" by (simp add: upper_bound_loop.simps)
  next
    case pos: True
    define half where "half = len div 2"
    define middle where "middle = first + half"
    have mid: "middle < length v" "half < len"
      using pos "1.prems"(2) by (auto simp: middle_def half_def)
    show ?thesis
    proof (cases "val < v ! middle")
      case True
      have u: "upper_bound_loop v val first len = upper_bound_loop v val first half"
        using pos True by (subst upper_bound_loop.simps) (simp add: half_def middle_def Let_def)
      have above: "\<forall>k. first + half \<le> k \<and> k < length v \<longrightarrow> val < v ! k"
      proof (intro allI impI)
        fix k assume k: "first + half \<le> k \<and> k < length v"
        then have "v ! middle \<le> v ! k"
          using \<open>sorted v\<close> by (simp add: middle_def sorted_nth_mono)
        with True show "val < v ! k" by simp
      qed
      have "first + half \<le> length v" using mid by (simp add: middle_def)
      from "1.IH"(1)[OF pos half_def middle_def True "1.prems"(1) this "1.prems"(3) above]
      show ?thesis using u mid by auto
    next
      case False
      have u: "upper_bound_loop v val first len
                 = upper_bound_loop v val (middle + 1) (len - half - 1)"
        using pos False by (subst upper_bound_loop.simps) (simp add: half_def middle_def Let_def)
      have below: "\<forall>k<middle + 1. v ! k \<le> val"
      proof (intro allI impI)
        fix k assume "k < middle + 1"
        then have "v ! k \<le> v ! middle"
          using \<open>sorted v\<close> mid by (simp add: sorted_nth_mono)
        with False show "v ! k \<le> val" by simp
      qed
      have e: "middle + 1 + (len - half - 1) = first + len"
        using mid by (simp add: middle_def)
      have le: "middle + 1 + (len - half - 1) \<le> length v"
        using e "1.prems"(2) by simp
      have above: "\<forall>k. middle + 1 + (len - half - 1) \<le> k \<and> k < length v \<longrightarrow> val < v ! k"
        using e "1.prems"(4) by simp
      from "1.IH"(2)[OF pos half_def middle_def False "1.prems"(1) le below above]
      show ?thesis using u e by (auto simp: middle_def)
    qed
  qed
qed

lemma upper_bound_sorted:
  assumes "sorted v"
  shows "0 \<le> upper_bound v val \<and> upper_bound v val \<le> int (length v)
       \<and> (\<forall>k<nat (upper_bound v val). v ! k \<le> val)
       \<and> (\<forall>k. nat (upper_bound v val) \<le> k \<and> k < length v \<longrightarrow> val < v ! k)"
  using upper_bound_loop_sorted[of v 0 "length v" val] assms
  by (simp add: upper_bound_def)

section \<open>The inversion of a count sequence\<close>

lemma invert_counts_nth:
  "0 \<le> y \<Longrightarrow> y < m \<Longrightarrow> invert_counts c m ! nat y = upper_bound c y"
  by (simp add: invert_counts_def)

lemma invert_counts_length: "length (invert_counts c m) = nat m"
  by (simp add: invert_counts_def)

lemma invert_counts_empty: "m \<le> 0 \<Longrightarrow> invert_counts c m = []"
  by (simp add: invert_counts_def)

lemma upper_bound_below_length:
  assumes "sorted c" and "maxv c = Inr m" and "y < m"
  shows "upper_bound c y < int (length c)"
proof -
  from assms(2) have ne: "c \<noteq> []" and m: "m = Max (set c)"
    by (simp_all add: maxv_eq_Inr)
  then have "m \<in> set c" by simp
  then obtain k where k: "k < length c" "c ! k = m"
    by (auto simp: in_set_conv_nth)
  have "\<forall>j<nat (upper_bound c y). c ! j \<le> y"
    using upper_bound_sorted[OF assms(1)] by blast
  with k assms(3) have "\<not> k < nat (upper_bound c y)" by force
  with k show ?thesis by linarith
qed

text \<open>
  C3. On a non-decreasing count sequence \<open>c\<close> with maximum \<open>m\<close>, the inversion has one
  entry for each level \<open>y\<close> from 0 to \<open>m - 1\<close>, and the entry for \<open>y\<close> is the leftmost
  position of \<open>c\<close> whose count is greater than \<open>y\<close>: the count there exceeds \<open>y\<close> and
  no count before it does.
\<close>

theorem invert_counts_leftmost:
  assumes "sorted c" and "maxv c = Inr m" and "0 \<le> y" and "y < m"
  shows "length (invert_counts c m) = nat m
       \<and> 0 \<le> invert_counts c m ! nat y
       \<and> invert_counts c m ! nat y < int (length c)
       \<and> y < c ! nat (invert_counts c m ! nat y)
       \<and> (\<forall>k<nat (invert_counts c m ! nat y). c ! k \<le> y)"
proof -
  have z: "invert_counts c m ! nat y = upper_bound c y"
    using assms(3,4) by (rule invert_counts_nth)
  have lt: "upper_bound c y < int (length c)"
    using assms(1,2,4) by (rule upper_bound_below_length)
  have ub: "0 \<le> upper_bound c y" "\<forall>k<nat (upper_bound c y). c ! k \<le> y"
    "\<forall>k. nat (upper_bound c y) \<le> k \<and> k < length c \<longrightarrow> y < c ! k"
    using upper_bound_sorted[OF assms(1), of y] by blast+
  have "y < c ! nat (upper_bound c y)"
    using ub(1,3) lt by simp
  then show ?thesis
    using z lt ub(1,2) by (simp add: invert_counts_length)
qed

theorem invert_counts_leftmost_witness:
  "sorted [0, 1, 1, 2 :: int] \<and> maxv [0, 1, 1, 2] = Inr 2
   \<and> length (invert_counts [0, 1, 1, 2] 2) = 2
   \<and> invert_counts [0, 1, 1, 2] 2 ! nat 1 = 3
   \<and> (1::int) < [0, 1, 1, 2] ! nat (invert_counts [0, 1, 1, 2] 2 ! nat 1)
   \<and> [0, 1, 1, 2 :: int] ! 2 \<le> 1"
proof -
  have h1: "sorted [0, 1, 1, 2 :: int]" by simp
  have h2: "maxv [0, 1, 1, 2] = Inr 2" by simp
  have v: "invert_counts [0, 1, 1, 2] 2 = [1, 3]" by code_simp
  show ?thesis
    using h1 h2 invert_counts_leftmost[OF h1 h2, of 1] by (simp add: v)
qed

section \<open>Seeding, thresholds and decisions\<close>



lemma seed_eq_Inr:
  "seed pval gammai w0 = Inr h \<longleftrightarrow>
     pval \<noteq> [] \<and> gammai \<noteq> [] \<and>
     h = \<lparr>alphai = (replicate (length pval) 0)[0 := gammai ! 0 * w0],
          R = (replicate (length pval) False)[0 := (pval ! 0 \<le> gammai ! 0 * w0)],
          Rvis = []\<rparr>"
  by (cases pval; cases gammai) (auto simp: seed_def Let_def rd_def wr_def)

lemma seed_fault: "seed pval gammai w0 = Inl e \<Longrightarrow> e = OutOfBounds"
  by (cases pval; cases gammai) (auto simp: seed_def Let_def rd_def wr_def split: if_splits)

lemma gammaisum_loop_eq_Inr:
  "gammaisum_loop gammai i rs acc = Inr s \<longleftrightarrow>
     (\<forall>z\<in>set rs. 0 \<le> i - z - 1 \<and> i - z - 1 < int (length gammai)) \<and>
     s = acc + (\<Sum>z\<leftarrow>rs. gammai ! nat (i - z - 1))"
proof (induction rs arbitrary: acc)
  case Nil
  show ?case by auto
next
  case (Cons z rs)
  show ?case
    by (auto simp: and_then_eq_Inr rd_eq_Inr Cons.IH)
qed

lemma sum_list_tl_nth:
  "(\<Sum>z\<leftarrow>tl r. f z) = (\<Sum>g = 1..<length r. f (r ! g))"
proof (cases r)
  case Nil
  then show ?thesis by simp
next
  case (Cons a rs)
  have "(\<Sum>z\<leftarrow>rs. f z) = (\<Sum>g = 0..<length rs. f (rs ! g))"
    by (simp add: sum_list_sum_nth)
  also have "\<dots> = (\<Sum>g = 0..<length rs. f ((a # rs) ! Suc g))"
    by simp
  also have "\<dots> = (\<Sum>g = Suc 0..<Suc (length rs). f ((a # rs) ! g))"
    by (rule sum.shift_bounds_Suc_ivl[symmetric])
  finally show ?thesis using Cons by simp
qed

lemma threshold_eq_Inr:
  "threshold gammai w0 alpha i r = Inr t \<longleftrightarrow>
     0 \<le> i \<and> i < int (length gammai) \<and>
     (\<forall>z\<in>set r. 0 \<le> i - z - 1 \<and> i - z - 1 < int (length gammai)) \<and>
     t = (if r = [] then gammai ! nat i * w0
          else if length r = 1 then
            gammai ! nat i * w0 + (alpha - w0) * gammai ! nat (i - r ! 0 - 1)
          else gammai ! nat i * w0 + (alpha - w0) * gammai ! nat (i - r ! 0 - 1)
               + alpha * (\<Sum>g = 1..<length r. gammai ! nat (i - r ! g - 1)))"
proof (cases r)
  case Nil
  then show ?thesis
    by (auto simp: threshold_def and_then_eq_Inr rd_eq_Inr)
next
  case (Cons a rs)
  note c = this
  show ?thesis
  proof (cases rs)
    case Nil
    with c show ?thesis
      by (auto simp: threshold_def and_then_eq_Inr rd_eq_Inr)
  next
    case (Cons b rs')
    have s: "(\<Sum>z\<leftarrow>tl r. gammai ! nat (i - z - 1))
           = (\<Sum>g = 1..<length r. gammai ! nat (i - r ! g - 1))"
      by (rule sum_list_tl_nth)
    have len: "\<not> length r \<le> 1" "r \<noteq> []" "length r \<noteq> 1" "r ! 0 = a" "set r = insert a (set (tl r))"
      using c Cons by auto
    show ?thesis
      unfolding threshold_def
      apply (simp only: len if_False)
      apply (simp only: and_then_eq_Inr rd_eq_Inr gammaisum_loop_eq_Inr s)
      apply auto
      done
  qed
qed


lemma decide_eq_Inr:
  "decide pval gammai w0 alpha i c r h = Inr h' \<longleftrightarrow>
     (\<exists>t. threshold gammai w0 alpha i r = Inr t \<and>
          i < int (length (alphai h)) \<and> i < int (length pval) \<and> i < int (length (R h)) \<and>
          h' = \<lparr>alphai = (alphai h)[nat i := t],
                R = (R h)[nat i := (pval ! nat i \<le> t)], Rvis = c\<rparr>)"
  apply (simp add: decide_def and_then_eq_Inr rd_eq_Inr wr_eq_Inr threshold_eq_Inr)
  apply (auto)
  done

section \<open>The invariant of the async and the dependency loop\<close>

lemma seed_hist_inv:
  assumes "seed pval gammai w0 = Inr h"
  shows "hist_inv pval gammai w0 alpha 1 h"
proof -
  from assms have ne: "pval \<noteq> []"
    and h: "h = \<lparr>alphai = (replicate (length pval) 0)[0 := gammai ! 0 * w0],
          R = (replicate (length pval) False)[0 := (pval ! 0 \<le> gammai ! 0 * w0)],
          Rvis = []\<rparr>"
    by (simp_all add: seed_eq_Inr)
  from ne have pos: "0 < length pval" by simp
  show ?thesis
    unfolding hist_inv_def using pos by (simp add: h)
qed

lemma decide_hist_inv:
  assumes inv: "hist_inv pval gammai w0 alpha i h"
    and m: "maxv (Rvis h @ [cond]) = Inr m"
    and d: "decide pval gammai w0 alpha (int i) (Rvis h @ [cond])
              (invert_counts (Rvis h @ [cond]) m) h = Inr h'"
  shows "hist_inv pval gammai w0 alpha (Suc i) h'"
proof -
  from d obtain t where
    t: "threshold gammai w0 alpha (int i) (invert_counts (Rvis h @ [cond]) m) = Inr t"
    and i: "i < length pval"
    and h': "h' = \<lparr>alphai = (alphai h)[i := t],
                R = (R h)[i := (pval ! i \<le> t)], Rvis = Rvis h @ [cond]\<rparr>"
    by (auto simp: decide_eq_Inr)
  from inv have len: "length (alphai h) = length pval" "length (R h) = length pval"
    "Suc (length (Rvis h)) = i"
    and dec: "\<forall>k<i. R h ! k = (pval ! k \<le> alphai h ! k)"
    and unset: "\<forall>k. i \<le> k \<and> k < length pval \<longrightarrow> \<not> R h ! k"
    and s0: "alphai h ! 0 = gammai ! 0 * w0"
    and thr: "\<forall>k. 1 \<le> k \<and> k < i \<longrightarrow>
        (\<exists>m. maxv (take k (Rvis h)) = Inr m \<and>
             threshold gammai w0 alpha (int k) (invert_counts (take k (Rvis h)) m)
               = Inr (alphai h ! k))"
    unfolding hist_inv_def by blast+
  have ipos: "0 < i" using len(3) by auto
  have a: "\<forall>k<Suc i. R h' ! k = (pval ! k \<le> alphai h' ! k)"
    using dec i len by (auto simp: h' nth_list_update less_Suc_eq)
  have b: "\<forall>k. Suc i \<le> k \<and> k < length pval \<longrightarrow> \<not> R h' ! k"
    using unset by (auto simp: h')
  have c: "alphai h' ! 0 = gammai ! 0 * w0"
    using s0 ipos by (simp add: h')
  have e: "\<forall>k. 1 \<le> k \<and> k < Suc i \<longrightarrow>
        (\<exists>m. maxv (take k (Rvis h')) = Inr m \<and>
             threshold gammai w0 alpha (int k) (invert_counts (take k (Rvis h')) m)
               = Inr (alphai h' ! k))"
  proof (intro allI impI)
    fix k assume k: "1 \<le> k \<and> k < Suc i"
    show "\<exists>m. maxv (take k (Rvis h')) = Inr m \<and>
             threshold gammai w0 alpha (int k) (invert_counts (take k (Rvis h')) m)
               = Inr (alphai h' ! k)"
    proof (cases "k = i")
      case True
      then have "take k (Rvis h') = Rvis h @ [cond]"
        using len(3) by (simp add: h')
      moreover have "alphai h' ! k = t"
        using True i len by (simp add: h')
      ultimately show ?thesis using m t True by simp
    next
      case False
      with k have ki: "k < i" by simp
      then have "take k (Rvis h') = take k (Rvis h)"
        using len(3) by (auto simp: h')
      moreover have "alphai h' ! k = alphai h ! k"
        using ki by (simp add: h')
      ultimately show ?thesis using thr k ki by simp
    qed
  qed
  show ?thesis
    unfolding hist_inv_def using a b c e len by (simp add: h')
qed

lemma async_step_eq_Inr:
  "async_step pval E gammai w0 alpha i h = Inr h' \<longleftrightarrow>
     (\<exists>cond m. for_loop 0 i (async_scan (R h) E i) 0 = Inr cond \<and>
        maxv (Rvis h @ [cond]) = Inr m \<and>
        decide pval gammai w0 alpha i (Rvis h @ [cond])
          (invert_counts (Rvis h @ [cond]) m) h = Inr h')"
proof -
  have "(if m > 0 then invert_counts c m else []) = invert_counts c m" for c m
    by (simp add: invert_counts_empty)
  then show ?thesis
    by (simp add: async_step_def and_then_eq_Inr Let_def)
qed

lemma dep_step_eq_Inr:
  "dep_step pval L gammai w0 alpha i h = Inr h' \<longleftrightarrow>
     (\<exists>cond m. 0 \<le> i \<and> i < int (length L) \<and>
        (if i - 1 - L ! nat i \<ge> 0 then for_loop 0 (i - L ! nat i) (dep_scan (R h)) 0 else Inr 0)
           = Inr cond \<and>
        maxv (Rvis h @ [cond]) = Inr m \<and>
        decide pval gammai w0 alpha i (Rvis h @ [cond])
          (invert_counts (Rvis h @ [cond]) m) h = Inr h')"
  by (simp add: dep_step_def and_then_eq_Inr rd_eq_Inr Let_def)

lemma async_run_eq_Inr:
  "async_run pval E gammai w0 alpha = Inr h \<longleftrightarrow>
     2 \<le> length pval \<and>
     (\<exists>h0. seed pval gammai w0 = Inr h0 \<and>
        for_loop 1 (int (length pval)) (async_step pval E gammai w0 alpha) h0 = Inr h)"
  by (auto simp: async_run_def Let_def and_then_eq_Inr wr_eq_Inr)

lemma dep_run_eq_Inr:
  "dep_run pval L gammai w0 alpha = Inr h \<longleftrightarrow>
     (\<exists>h0. seed pval gammai w0 = Inr h0 \<and>
        for_loop 1 (int (length pval)) (dep_step pval L gammai w0 alpha) h0 = Inr h)"
  by (auto simp: dep_run_def Let_def and_then_eq_Inr)

lemma async_run_hist_inv:
  assumes "async_run pval E gammai w0 alpha = Inr h"
  shows "hist_inv pval gammai w0 alpha (length pval) h"
proof -
  from assms obtain h0 where s: "seed pval gammai w0 = Inr h0"
    and l: "for_loop 1 (int (length pval)) (async_step pval E gammai w0 alpha) h0 = Inr h"
    and n: "2 \<le> length pval"
    by (auto simp: async_run_eq_Inr)
  have "hist_inv pval gammai w0 alpha (nat (int (length pval))) h"
  proof (rule for_loop_invariant[OF l, where P = "\<lambda>k u. hist_inv pval gammai w0 alpha (nat k) u"])
    show "hist_inv pval gammai w0 alpha (nat 1) h0"
      using seed_hist_inv[OF s] by simp
    show "1 \<le> int (length pval)" using n by simp
    fix k u u'
    assume k: "1 \<le> k" "k < int (length pval)"
      and inv: "hist_inv pval gammai w0 alpha (nat k) u"
      and st: "async_step pval E gammai w0 alpha k u = Inr u'"
    from st obtain cond m where "maxv (Rvis u @ [cond]) = Inr m"
      "decide pval gammai w0 alpha (int (nat k)) (Rvis u @ [cond])
          (invert_counts (Rvis u @ [cond]) m) u = Inr u'"
      using k by (auto simp: async_step_eq_Inr)
    from decide_hist_inv[OF inv this]
    show "hist_inv pval gammai w0 alpha (nat (k + 1)) u'"
      using k by (simp add: nat_add_distrib)
  qed
  then show ?thesis by simp
qed

lemma dep_run_hist_inv:
  assumes "dep_run pval L gammai w0 alpha = Inr h"
  shows "hist_inv pval gammai w0 alpha (length pval) h"
proof -
  from assms obtain h0 where s: "seed pval gammai w0 = Inr h0"
    and l: "for_loop 1 (int (length pval)) (dep_step pval L gammai w0 alpha) h0 = Inr h"
    by (auto simp: dep_run_eq_Inr)
  from s have n: "pval \<noteq> []" by (simp add: seed_eq_Inr)
  have "hist_inv pval gammai w0 alpha (nat (int (length pval))) h"
  proof (rule for_loop_invariant[OF l, where P = "\<lambda>k u. hist_inv pval gammai w0 alpha (nat k) u"])
    show "hist_inv pval gammai w0 alpha (nat 1) h0"
      using seed_hist_inv[OF s] by simp
    show "1 \<le> int (length pval)" using n by (cases pval) simp_all
    fix k u u'
    assume k: "1 \<le> k" "k < int (length pval)"
      and inv: "hist_inv pval gammai w0 alpha (nat k) u"
      and st: "dep_step pval L gammai w0 alpha k u = Inr u'"
    from st obtain cond m where "maxv (Rvis u @ [cond]) = Inr m"
      "decide pval gammai w0 alpha (int (nat k)) (Rvis u @ [cond])
          (invert_counts (Rvis u @ [cond]) m) u = Inr u'"
      using k by (auto simp: dep_step_eq_Inr)
    from decide_hist_inv[OF inv this]
    show "hist_inv pval gammai w0 alpha (nat (k + 1)) u'"
      using k by (simp add: nat_add_distrib)
  qed
  then show ?thesis by simp
qed

section \<open>The batch procedure, step by step\<close>

lemma mrd_eq_Inr:
  "mrd m b x = Inr v \<longleftrightarrow>
     0 \<le> b \<and> b < int (length m) \<and> 0 \<le> x \<and> x < int (length (m ! nat b)) \<and>
     v = m ! nat b ! nat x"
  by (auto simp: mrd_def and_then_eq_Inr rd_eq_Inr)

lemma mwr_eq_Inr:
  "mwr m b x v = Inr m' \<longleftrightarrow>
     0 \<le> b \<and> b < int (length m) \<and> 0 \<le> x \<and> x < int (length (m ! nat b)) \<and>
     m' = m[nat b := (m ! nat b)[nat x := v]]"
  by (auto simp: mwr_def and_then_eq_Inr rd_eq_Inr wr_eq_Inr)

lemma batch0_body_eq_Inr:
  "batch0_body pval gammai w0 i s = Inr s' \<longleftrightarrow>
     0 \<le> i \<and> i < int (length gammai) \<and> i < int (length pval) \<and>
     0 < length (alphaim s) \<and> i < int (length (alphaim s ! 0)) \<and>
     0 < length (Rm s) \<and> i < int (length (Rm s ! 0)) \<and>
     s' = \<lparr>alphaim = (alphaim s)[0 := (alphaim s ! 0)[nat i := gammai ! nat i * w0]],
           Rm = (Rm s)[0 := (Rm s ! 0)[nat i := (pval ! nat i \<le> gammai ! nat i * w0)]]\<rparr>"
  by (auto simp: batch0_body_def and_then_eq_Inr rd_eq_Inr mrd_eq_Inr mwr_eq_Inr)

lemma batch_gammaisum_loop_eq_Inr:
  "batch_gammaisum_loop gammai batchsum k rs acc = Inr s \<longleftrightarrow>
     (\<forall>z\<in>set rs. 0 \<le> z \<and> z < int (length batchsum) \<and>
        0 \<le> k - batchsum ! nat z \<and> k - batchsum ! nat z < int (length gammai)) \<and>
     s = acc + (\<Sum>z\<leftarrow>rs. gammai ! nat (k - batchsum ! nat z))"
proof (induction rs arbitrary: acc)
  case Nil
  show ?case by auto
next
  case (Cons z rs)
  show ?case
    by (auto simp: and_then_eq_Inr rd_eq_Inr Cons.IH)
qed

lemma batch_threshold_eq_Inr:
  "batch_threshold gammai batchsum w0 alpha b x r = Inr t \<longleftrightarrow>
     0 \<le> b - 1 \<and> b - 1 < int (length batchsum) \<and>
     0 \<le> batchsum ! nat (b - 1) + x \<and> batchsum ! nat (b - 1) + x < int (length gammai) \<and>
     (\<forall>z\<in>set r. 0 \<le> z \<and> z < int (length batchsum) \<and>
        0 \<le> batchsum ! nat (b - 1) + x - batchsum ! nat z \<and>
        batchsum ! nat (b - 1) + x - batchsum ! nat z < int (length gammai)) \<and>
     t = (if r = [] then gammai ! nat (batchsum ! nat (b - 1) + x) * w0
          else if length r = 1 then
            gammai ! nat (batchsum ! nat (b - 1) + x) * w0
            + (alpha - w0) * gammai ! nat (batchsum ! nat (b - 1) + x - batchsum ! nat (r ! 0))
          else gammai ! nat (batchsum ! nat (b - 1) + x) * w0
            + (alpha - w0) * gammai ! nat (batchsum ! nat (b - 1) + x - batchsum ! nat (r ! 0))
            + alpha * (\<Sum>g = 1..<length r.
                gammai ! nat (batchsum ! nat (b - 1) + x - batchsum ! nat (r ! g))))"
proof (cases r)
  case Nil
  then show ?thesis
    by (auto simp: batch_threshold_def and_then_eq_Inr rd_eq_Inr)
next
  case (Cons a rs)
  note c = this
  show ?thesis
  proof (cases rs)
    case Nil
    with c show ?thesis
      by (auto simp: batch_threshold_def and_then_eq_Inr rd_eq_Inr)
  next
    case (Cons a' rs')
    have s: "(\<Sum>z\<leftarrow>tl r. gammai ! nat (batchsum ! nat (b - 1) + x - batchsum ! nat z))
           = (\<Sum>g = 1..<length r.
                gammai ! nat (batchsum ! nat (b - 1) + x - batchsum ! nat (r ! g)))"
      by (rule sum_list_tl_nth)
    have len: "\<not> length r \<le> 1" "r \<noteq> []" "length r \<noteq> 1" "r ! 0 = a" "set r = insert a (set (tl r))"
      using c Cons by auto
    show ?thesis
      unfolding batch_threshold_def
      apply (simp only: len if_False)
      apply (simp only: and_then_eq_Inr rd_eq_Inr batch_gammaisum_loop_eq_Inr)
      apply (auto simp: s)
      done
  qed
qed

section \<open>Thresholds are not negative\<close>


lemma batch_threshold_nonneg:
  assumes "batch_threshold gammai batchsum w0 alpha b x r = Inr t"
    and g: "\<forall>g\<in>set gammai. 0 \<le> g" and w: "0 \<le> w0" "w0 \<le> alpha"
  shows "0 \<le> t"
proof -
  define k where "k = batchsum ! nat (b - 1) + x"
  have nn: "0 \<le> gammai ! nat j" if "0 \<le> j" "j < int (length gammai)" for j
    using that g by simp
  from assms(1) have i: "0 \<le> k" "k < int (length gammai)"
    and r: "\<forall>z\<in>set r. 0 \<le> k - batchsum ! nat z \<and> k - batchsum ! nat z < int (length gammai)"
    and t: "t = (if r = [] then gammai ! nat k * w0
          else if length r = 1 then
            gammai ! nat k * w0 + (alpha - w0) * gammai ! nat (k - batchsum ! nat (r ! 0))
          else gammai ! nat k * w0 + (alpha - w0) * gammai ! nat (k - batchsum ! nat (r ! 0))
               + alpha * (\<Sum>g = 1..<length r. gammai ! nat (k - batchsum ! nat (r ! g))))"
    unfolding k_def by (simp_all add: batch_threshold_eq_Inr)
  have a: "0 \<le> gammai ! nat k * w0"
    using nn[OF i] w by simp
  have b: "0 \<le> (alpha - w0) * gammai ! nat (k - batchsum ! nat (r ! 0))" if "r \<noteq> []"
  proof -
    from that have "r ! 0 \<in> set r" by simp
    with r have "0 \<le> gammai ! nat (k - batchsum ! nat (r ! 0))" using nn by blast
    with w show ?thesis by simp
  qed
  have c: "0 \<le> alpha * (\<Sum>g = 1..<length r. gammai ! nat (k - batchsum ! nat (r ! g)))"
  proof -
    have "0 \<le> (\<Sum>g = 1..<length r. gammai ! nat (k - batchsum ! nat (r ! g)))"
    proof (rule sum_nonneg)
      fix g assume "g \<in> {1..<length r}"
      then have "r ! g \<in> set r" by simp
      with r show "0 \<le> gammai ! nat (k - batchsum ! nat (r ! g))" using nn by blast
    qed
    moreover have "0 \<le> alpha" using w by simp
    ultimately show ?thesis by simp
  qed
  show ?thesis
    using a b c by (auto simp: t)
qed

lemma batch_body_eq_Inr:
  "batch_body pval batchsum gammai w0 alpha b rcum x s = Inr s' \<longleftrightarrow>
     (\<exists>m t. maxv rcum = Inr m \<and>
        batch_threshold gammai batchsum w0 alpha b x (invert_counts rcum m) = Inr t \<and>
        0 \<le> b \<and> b < int (length (alphaim s)) \<and> b < int (length (Rm s)) \<and>
        0 \<le> x \<and> x < int (length (alphaim s ! nat b)) \<and> x < int (length (Rm s ! nat b)) \<and>
        batchsum ! nat (b - 1) + x < int (length pval) \<and>
        s' = \<lparr>alphaim = (alphaim s)[nat b := (alphaim s ! nat b)[nat x := t]],
              Rm = (Rm s)[nat b := (Rm s ! nat b)
                      [nat x := (pval ! nat (batchsum ! nat (b - 1) + x) \<le> t)]]\<rparr>)"
proof -
  have e: "(if m > 0 then invert_counts c m else []) = invert_counts c m" for c m
    by (simp add: invert_counts_empty)
  have u: "batch_body pval batchsum gammai w0 alpha b rcum x s =
     and_then (maxv rcum) (\<lambda>m.
     and_then (batch_threshold gammai batchsum w0 alpha b x (invert_counts rcum m)) (\<lambda>t.
     and_then (mwr (alphaim s) b x t) (\<lambda>alphai'.
     and_then (rd batchsum (b - 1)) (\<lambda>bs1.
     and_then (rd pval (bs1 + x)) (\<lambda>p.
     and_then (mrd alphai' b x) (\<lambda>a.
     and_then (mwr (Rm s) b x (p \<le> a)) (\<lambda>R'.
     Inr \<lparr>alphaim = alphai', Rm = R'\<rparr>)))))))"
    unfolding batch_body_def Let_def e ..
  show ?thesis
  proof
    assume "batch_body pval batchsum gammai w0 alpha b rcum x s = Inr s'"
    then show "\<exists>m t. maxv rcum = Inr m \<and>
        batch_threshold gammai batchsum w0 alpha b x (invert_counts rcum m) = Inr t \<and>
        0 \<le> b \<and> b < int (length (alphaim s)) \<and> b < int (length (Rm s)) \<and>
        0 \<le> x \<and> x < int (length (alphaim s ! nat b)) \<and> x < int (length (Rm s ! nat b)) \<and>
        batchsum ! nat (b - 1) + x < int (length pval) \<and>
        s' = \<lparr>alphaim = (alphaim s)[nat b := (alphaim s ! nat b)[nat x := t]],
              Rm = (Rm s)[nat b := (Rm s ! nat b)
                      [nat x := (pval ! nat (batchsum ! nat (b - 1) + x) \<le> t)]]\<rparr>"
      unfolding u
      by (auto simp: and_then_eq_Inr rd_eq_Inr mrd_eq_Inr mwr_eq_Inr)
  next
    assume "\<exists>m t. maxv rcum = Inr m \<and>
        batch_threshold gammai batchsum w0 alpha b x (invert_counts rcum m) = Inr t \<and>
        0 \<le> b \<and> b < int (length (alphaim s)) \<and> b < int (length (Rm s)) \<and>
        0 \<le> x \<and> x < int (length (alphaim s ! nat b)) \<and> x < int (length (Rm s ! nat b)) \<and>
        batchsum ! nat (b - 1) + x < int (length pval) \<and>
        s' = \<lparr>alphaim = (alphaim s)[nat b := (alphaim s ! nat b)[nat x := t]],
              Rm = (Rm s)[nat b := (Rm s ! nat b)
                      [nat x := (pval ! nat (batchsum ! nat (b - 1) + x) \<le> t)]]\<rparr>"
    then obtain m t where m: "maxv rcum = Inr m"
      and t: "batch_threshold gammai batchsum w0 alpha b x (invert_counts rcum m) = Inr t"
      and r: "0 \<le> b" "b < int (length (alphaim s))" "b < int (length (Rm s))"
        "0 \<le> x" "x < int (length (alphaim s ! nat b))" "x < int (length (Rm s ! nat b))"
        "batchsum ! nat (b - 1) + x < int (length pval)"
      and s': "s' = \<lparr>alphaim = (alphaim s)[nat b := (alphaim s ! nat b)[nat x := t]],
              Rm = (Rm s)[nat b := (Rm s ! nat b)
                      [nat x := (pval ! nat (batchsum ! nat (b - 1) + x) \<le> t)]]\<rparr>"
      by blast
    from t have b1: "0 \<le> b - 1" "b - 1 < int (length batchsum)"
      "0 \<le> batchsum ! nat (b - 1) + x"
      by (simp_all add: batch_threshold_eq_Inr)
    have w1: "mwr (alphaim s) b x t = Inr ((alphaim s)[nat b := (alphaim s ! nat b)[nat x := t]])"
      using r by (simp add: mwr_eq_Inr)
    have r1: "rd batchsum (b - 1) = Inr (batchsum ! nat (b - 1))"
      using b1 by (simp add: rd_eq_Inr)
    have r2: "rd pval (batchsum ! nat (b - 1) + x) = Inr (pval ! nat (batchsum ! nat (b - 1) + x))"
      using b1 r by (simp add: rd_eq_Inr)
    have r3: "mrd ((alphaim s)[nat b := (alphaim s ! nat b)[nat x := t]]) b x = Inr t"
      using r by (simp add: mrd_eq_Inr)
    have w2: "mwr (Rm s) b x v = Inr ((Rm s)[nat b := (Rm s ! nat b)[nat x := v]])" for v
      using r by (simp add: mwr_eq_Inr)
    show "batch_body pval batchsum gammai w0 alpha b rcum x s = Inr s'"
      unfolding u by (simp add: m t w1 r1 r2 r3 w2 s')
  qed
qed

lemma cell_update_inv:
  assumes inv: "batch_inv pval batch batchsum gammai w0 alpha M b x s"
    and b: "b < length batch" and x: "x < M"
    and s': "s' = \<lparr>alphaim = (alphaim s)[b := (alphaim s ! b)[x := t]],
                   Rm = (Rm s)[b := (Rm s ! b)
                          [x := (pval ! nat (test_index batchsum b x) \<le> t)]]\<rparr>"
    and idx: "0 \<le> test_index batchsum b x" "test_index batchsum b x < int (length pval)"
      "test_index batchsum b x < int (length gammai)"
    and seed: "b = 0 \<Longrightarrow> x < length gammai \<and> t = gammai ! x * w0"
    and nonneg: "(\<forall>g\<in>set gammai. 0 \<le> g) \<and> 0 \<le> w0 \<and> w0 \<le> alpha \<Longrightarrow> 0 \<le> t"
  shows "batch_inv pval batch batchsum gammai w0 alpha M b (Suc x) s'"
proof -
  from inv have len: "length (alphaim s) = length batch" "length (Rm s) = length batch"
    and rows: "\<forall>row\<in>set (alphaim s). length row = M" "\<forall>row\<in>set (Rm s). length row = M"
    and cells: "\<forall>b' x'. (b' < b \<and> int x' < batch ! b') \<or> (b' = b \<and> x' < x) \<longrightarrow>
        0 \<le> test_index batchsum b' x' \<and> test_index batchsum b' x' < int (length pval) \<and>
        test_index batchsum b' x' < int (length gammai) \<and>
        Rm s ! b' ! x' = (pval ! nat (test_index batchsum b' x') \<le> alphaim s ! b' ! x')"
    and seeds: "\<forall>x'. (0 < b \<and> int x' < batch ! 0) \<or> (b = 0 \<and> x' < x) \<longrightarrow>
        x' < length gammai \<and> alphaim s ! 0 ! x' = gammai ! x' * w0"
    and nn: "(\<forall>g\<in>set gammai. 0 \<le> g) \<and> 0 \<le> w0 \<and> w0 \<le> alpha \<longrightarrow>
        (\<forall>row\<in>set (alphaim s). \<forall>a\<in>set row. 0 \<le> a)"
    unfolding batch_inv_def by blast+
  have rowb: "length (alphaim s ! b) = M" "length (Rm s ! b) = M"
    using rows len b by simp_all
  have r1: "\<forall>row\<in>set (alphaim s'). length row = M"
  proof
    fix row assume "row \<in> set (alphaim s')"
    then have "row \<in> insert ((alphaim s ! b)[x := t]) (set (alphaim s))"
      using set_update_subset_insert by (fastforce simp: s')
    then show "length row = M" using rows rowb by auto
  qed
  have r2: "\<forall>row\<in>set (Rm s'). length row = M"
  proof
    fix row assume "row \<in> set (Rm s')"
    then have "row \<in> insert ((Rm s ! b)[x := (pval ! nat (test_index batchsum b x) \<le> t)])
       (set (Rm s))"
      using set_update_subset_insert by (fastforce simp: s')
    then show "length row = M" using rows rowb by auto
  qed
  have c: "\<forall>b' x'. (b' < b \<and> int x' < batch ! b') \<or> (b' = b \<and> x' < Suc x) \<longrightarrow>
        0 \<le> test_index batchsum b' x' \<and> test_index batchsum b' x' < int (length pval) \<and>
        test_index batchsum b' x' < int (length gammai) \<and>
        Rm s' ! b' ! x' = (pval ! nat (test_index batchsum b' x') \<le> alphaim s' ! b' ! x')"
  proof (intro allI impI)
    fix b' x' assume h: "(b' < b \<and> int x' < batch ! b') \<or> (b' = b \<and> x' < Suc x)"
    show "0 \<le> test_index batchsum b' x' \<and> test_index batchsum b' x' < int (length pval) \<and>
        test_index batchsum b' x' < int (length gammai) \<and>
        Rm s' ! b' ! x' = (pval ! nat (test_index batchsum b' x') \<le> alphaim s' ! b' ! x')"
    proof (cases "b' = b")
      case False
      with h cells show ?thesis by (simp add: s')
    next
      case True
      show ?thesis
      proof (cases "x' = x")
        case True
        with \<open>b' = b\<close> show ?thesis using b len rowb x idx by (simp add: s')
      next
        case False
        with h \<open>b' = b\<close> have "x' < x" by simp
        with cells \<open>b' = b\<close> False show ?thesis using b len by (simp add: s')
      qed
    qed
  qed
  have d: "\<forall>x'. (0 < b \<and> int x' < batch ! 0) \<or> (b = 0 \<and> x' < Suc x) \<longrightarrow>
        x' < length gammai \<and> alphaim s' ! 0 ! x' = gammai ! x' * w0"
  proof (intro allI impI)
    fix x' assume h: "(0 < b \<and> int x' < batch ! 0) \<or> (b = 0 \<and> x' < Suc x)"
    show "x' < length gammai \<and> alphaim s' ! 0 ! x' = gammai ! x' * w0"
    proof (cases "b = 0")
      case False
      with h seeds show ?thesis by (simp add: s')
    next
      case True
      show ?thesis
      proof (cases "x' = x")
        case True
        with \<open>b = 0\<close> seed show ?thesis using b len rowb x by (simp add: s')
      next
        case False
        with h \<open>b = 0\<close> have "x' < x" by simp
        with seeds \<open>b = 0\<close> False show ?thesis using b len by (simp add: s')
      qed
    qed
  qed
  have e: "(\<forall>g\<in>set gammai. 0 \<le> g) \<and> 0 \<le> w0 \<and> w0 \<le> alpha \<longrightarrow>
        (\<forall>row\<in>set (alphaim s'). \<forall>a\<in>set row. 0 \<le> a)"
  proof (intro impI ballI)
    fix row a
    assume P: "(\<forall>g\<in>set gammai. 0 \<le> g) \<and> 0 \<le> w0 \<and> w0 \<le> alpha"
      and row: "row \<in> set (alphaim s')" and a: "a \<in> set row"
    from row have "row \<in> insert ((alphaim s ! b)[x := t]) (set (alphaim s))"
      using set_update_subset_insert by (fastforce simp: s')
    then show "0 \<le> a"
    proof
      assume "row = (alphaim s ! b)[x := t]"
      with a have "a \<in> insert t (set (alphaim s ! b))"
        using set_update_subset_insert by fastforce
      moreover have "alphaim s ! b \<in> set (alphaim s)" using b len by simp
      ultimately show ?thesis using nonneg[OF P] nn P by auto
    next
      assume "row \<in> set (alphaim s)"
      with nn P a show ?thesis by blast
    qed
  qed
  have l: "length (alphaim s') = length batch" "length (Rm s') = length batch"
    using len by (simp_all add: s')
  show ?thesis
    unfolding batch_inv_def by (intro conjI l r1 r2 c d e)
qed

section \<open>The invariant of the batch loops\<close>

lemma maxv_ge: "maxv c = Inr m \<Longrightarrow> k < length c \<Longrightarrow> c ! k \<le> m"
  by (simp add: maxv_eq_Inr)

lemma batch_inv_initial:
  "batch_inv pval batch batchsum gammai w0 alpha M 0 0
     \<lparr>alphaim = replicate (length batch) (replicate M 0),
      Rm = replicate (length batch) (replicate M False)\<rparr>"
  unfolding batch_inv_def by simp

lemma batch_inv_next:
  assumes "batch_inv pval batch batchsum gammai w0 alpha M b x s" and "batch ! b \<le> int x"
  shows "batch_inv pval batch batchsum gammai w0 alpha M (Suc b) 0 s"
proof -
  from assms(1) have len: "length (alphaim s) = length batch" "length (Rm s) = length batch"
    and rows: "\<forall>row\<in>set (alphaim s). length row = M" "\<forall>row\<in>set (Rm s). length row = M"
    and cells: "\<forall>b' x'. (b' < b \<and> int x' < batch ! b') \<or> (b' = b \<and> x' < x) \<longrightarrow>
        0 \<le> test_index batchsum b' x' \<and> test_index batchsum b' x' < int (length pval) \<and>
        test_index batchsum b' x' < int (length gammai) \<and>
        Rm s ! b' ! x' = (pval ! nat (test_index batchsum b' x') \<le> alphaim s ! b' ! x')"
    and seeds: "\<forall>x'. (0 < b \<and> int x' < batch ! 0) \<or> (b = 0 \<and> x' < x) \<longrightarrow>
        x' < length gammai \<and> alphaim s ! 0 ! x' = gammai ! x' * w0"
    and nn: "(\<forall>g\<in>set gammai. 0 \<le> g) \<and> 0 \<le> w0 \<and> w0 \<le> alpha \<longrightarrow>
        (\<forall>row\<in>set (alphaim s). \<forall>a\<in>set row. 0 \<le> a)"
    unfolding batch_inv_def by blast+
  have c: "\<forall>b' x'. (b' < Suc b \<and> int x' < batch ! b') \<or> (b' = Suc b \<and> x' < 0) \<longrightarrow>
        0 \<le> test_index batchsum b' x' \<and> test_index batchsum b' x' < int (length pval) \<and>
        test_index batchsum b' x' < int (length gammai) \<and>
        Rm s ! b' ! x' = (pval ! nat (test_index batchsum b' x') \<le> alphaim s ! b' ! x')"
  proof (intro allI impI)
    fix b' x' assume "(b' < Suc b \<and> int x' < batch ! b') \<or> (b' = Suc b \<and> x' < 0)"
    then have "(b' < b \<and> int x' < batch ! b') \<or> (b' = b \<and> x' < x)"
      using assms(2) by (auto simp: less_Suc_eq)
    with cells
    show "0 \<le> test_index batchsum b' x' \<and> test_index batchsum b' x' < int (length pval) \<and>
        test_index batchsum b' x' < int (length gammai) \<and>
        Rm s ! b' ! x' = (pval ! nat (test_index batchsum b' x') \<le> alphaim s ! b' ! x')"
      by blast
  qed
  have d: "\<forall>x'. (0 < Suc b \<and> int x' < batch ! 0) \<or> (Suc b = 0 \<and> x' < 0) \<longrightarrow>
        x' < length gammai \<and> alphaim s ! 0 ! x' = gammai ! x' * w0"
  proof (intro allI impI)
    fix x' assume "(0 < Suc b \<and> int x' < batch ! 0) \<or> (Suc b = 0 \<and> x' < 0)"
    then have "(0 < b \<and> int x' < batch ! 0) \<or> (b = 0 \<and> x' < x)"
      using assms(2) by (cases "b = 0") auto
    with seeds show "x' < length gammai \<and> alphaim s ! 0 ! x' = gammai ! x' * w0" by blast
  qed
  show ?thesis
    unfolding batch_inv_def by (intro conjI len rows c d nn)
qed

lemma batch0_loop_inv:
  assumes l: "for_loop 0 n0 (batch0_body pval gammai w0) s0 = Inr s1"
    and n0: "batch ! 0 = n0" and b: "0 < length batch" and M: "maxv batch = Inr (int M)"
    and inv: "batch_inv pval batch batchsum gammai w0 alpha M 0 0 s0"
  shows "batch_inv pval batch batchsum gammai w0 alpha M 1 0 s1"
proof (cases "0 \<le> n0")
  case False
  then have "s1 = s0" using l by (simp add: for_loop_done)
  with inv batch_inv_next[of pval batch batchsum gammai w0 alpha M 0 0 s0] n0 False
  show ?thesis by simp
next
  case True
  have bound: "n0 \<le> int M" using maxv_ge[OF M b] n0 by simp
  have "batch_inv pval batch batchsum gammai w0 alpha M 0 (nat n0) s1"
  proof (rule for_loop_invariant[OF l,
        where P = "\<lambda>k u. batch_inv pval batch batchsum gammai w0 alpha M 0 (nat k) u"])
    show "batch_inv pval batch batchsum gammai w0 alpha M 0 (nat 0) s0"
      using inv by simp
    show "0 \<le> n0" by fact
    fix k u u'
    assume k: "0 \<le> k" "k < n0"
      and u: "batch_inv pval batch batchsum gammai w0 alpha M 0 (nat k) u"
      and st: "batch0_body pval gammai w0 k u = Inr u'"
    from st have kg: "k < int (length gammai)" and kp: "k < int (length pval)"
      and u': "u' = \<lparr>alphaim = (alphaim u)[0 := (alphaim u ! 0)[nat k := gammai ! nat k * w0]],
           Rm = (Rm u)[0 := (Rm u ! 0)[nat k := (pval ! nat k \<le> gammai ! nat k * w0)]]\<rparr>"
      by (simp_all add: batch0_body_eq_Inr)
    have ti: "nat (test_index batchsum 0 (nat k)) = nat k"
      by (simp add: test_index_def)
    have nn: "(\<forall>g\<in>set gammai. 0 \<le> g) \<and> 0 \<le> w0 \<and> w0 \<le> alpha
        \<Longrightarrow> 0 \<le> gammai ! nat k * w0"
      using k kg by simp
    have "batch_inv pval batch batchsum gammai w0 alpha M 0 (Suc (nat k)) u'"
    proof (rule cell_update_inv[OF u b])
      show "nat k < M" using k bound by simp
      show "u' = \<lparr>alphaim = (alphaim u)[0 := (alphaim u ! 0)[nat k := gammai ! nat k * w0]],
           Rm = (Rm u)[0 := (Rm u ! 0)
             [nat k := (pval ! nat (test_index batchsum 0 (nat k)) \<le> gammai ! nat k * w0)]]\<rparr>"
        unfolding ti by (rule u')
      show "nat k < length gammai \<and> gammai ! nat k * w0 = gammai ! nat k * w0"
        using k kg by simp
      show "0 \<le> test_index batchsum 0 (nat k)" "test_index batchsum 0 (nat k) < int (length pval)"
        "test_index batchsum 0 (nat k) < int (length gammai)"
        using k kp kg by (simp_all add: test_index_def)
      show "(\<forall>g\<in>set gammai. 0 \<le> g) \<and> 0 \<le> w0 \<and> w0 \<le> alpha
        \<Longrightarrow> 0 \<le> gammai ! nat k * w0" by (rule nn)
    qed
    then show "batch_inv pval batch batchsum gammai w0 alpha M 0 (nat (k + 1)) u'"
      using k by (simp add: nat_add_distrib)
  qed
  from batch_inv_next[OF this] n0 True show ?thesis by simp
qed

lemma batch_step_inv:
  assumes st: "batch_step pval batch batchsum gammai w0 alpha (int b) s = Inr s'"
    and b: "1 \<le> b" "b < length batch" and M: "maxv batch = Inr (int M)"
    and inv: "batch_inv pval batch batchsum gammai w0 alpha M b 0 s"
  shows "batch_inv pval batch batchsum gammai w0 alpha M (Suc b) 0 s'"
proof -
  define rcum where "rcum = cumsum (rowSums (Rm s))"
  define nb where "nb = batch ! b"
  from st have l: "for_loop 0 nb (batch_body pval batchsum gammai w0 alpha (int b) rcum) s = Inr s'"
    using b by (simp add: batch_step_def Let_def and_then_eq_Inr rd_eq_Inr rcum_def nb_def)
  show ?thesis
  proof (cases "0 \<le> nb")
    case False
    then have "s' = s" using l by (simp add: for_loop_done)
    with inv batch_inv_next[of pval batch batchsum gammai w0 alpha M b 0 s] False
    show ?thesis by (simp add: nb_def)
  next
    case True
    have bound: "nb \<le> int M" using maxv_ge[OF M b(2)] by (simp add: nb_def)
    have "batch_inv pval batch batchsum gammai w0 alpha M b (nat nb) s'"
    proof (rule for_loop_invariant[OF l,
          where P = "\<lambda>k u. batch_inv pval batch batchsum gammai w0 alpha M b (nat k) u"])
      show "batch_inv pval batch batchsum gammai w0 alpha M b (nat 0) s"
        using inv by simp
      show "0 \<le> nb" by fact
      fix k u u'
      assume k: "0 \<le> k" "k < nb"
        and u: "batch_inv pval batch batchsum gammai w0 alpha M b (nat k) u"
        and bd: "batch_body pval batchsum gammai w0 alpha (int b) rcum k u = Inr u'"
      from bd obtain m t where
        t: "batch_threshold gammai batchsum w0 alpha (int b) k (invert_counts rcum m) = Inr t"
        and kp: "batchsum ! nat (int b - 1) + k < int (length pval)"
        and u': "u' = \<lparr>alphaim = (alphaim u)[nat (int b) := (alphaim u ! nat (int b))[nat k := t]],
              Rm = (Rm u)[nat (int b) := (Rm u ! nat (int b))
                      [nat k := (pval ! nat (batchsum ! nat (int b - 1) + k) \<le> t)]]\<rparr>"
        unfolding batch_body_eq_Inr by blast
      have ti: "test_index batchsum b (nat k) = batchsum ! nat (int b - 1) + k"
        using b k by (simp add: test_index_def nat_diff_distrib)
      have "batch_inv pval batch batchsum gammai w0 alpha M b (Suc (nat k)) u'"
      proof (rule cell_update_inv[OF u b(2)])
        show "nat k < M" using k bound by simp
        show "u' = \<lparr>alphaim = (alphaim u)[b := (alphaim u ! b)[nat k := t]],
           Rm = (Rm u)[b := (Rm u ! b)
             [nat k := (pval ! nat (test_index batchsum b (nat k)) \<le> t)]]\<rparr>"
          unfolding ti using u' by simp
        show "b = 0 \<Longrightarrow> nat k < length gammai \<and> t = gammai ! nat k * w0" using b by simp
        show "0 \<le> test_index batchsum b (nat k)"
          unfolding ti using t by (simp add: batch_threshold_eq_Inr)
        show "test_index batchsum b (nat k) < int (length pval)"
          unfolding ti by (rule kp)
        show "test_index batchsum b (nat k) < int (length gammai)"
          unfolding ti using t by (simp add: batch_threshold_eq_Inr)
        show "(\<forall>g\<in>set gammai. 0 \<le> g) \<and> 0 \<le> w0 \<and> w0 \<le> alpha \<Longrightarrow> 0 \<le> t"
          using batch_threshold_nonneg[OF t] by blast
      qed
      then show "batch_inv pval batch batchsum gammai w0 alpha M b (nat (k + 1)) u'"
        using k by (simp add: nat_add_distrib)
    qed
    from batch_inv_next[OF this] True show ?thesis by (simp add: nb_def)
  qed
qed

lemma lordstar_batch_faster_eq_Inr:
  "lordstar_batch_faster pval batch batchsum gammai w0 alpha = Inr s \<longleftrightarrow>
     (\<exists>M s1. maxv batch = Inr (int M) \<and> batch \<noteq> [] \<and>
        for_loop 0 (batch ! 0) (batch0_body pval gammai w0)
          \<lparr>alphaim = replicate (length batch) (replicate M 0),
           Rm = replicate (length batch) (replicate M False)\<rparr> = Inr s1 \<and>
        for_loop 1 (int (length batch)) (batch_step pval batch batchsum gammai w0 alpha) s1
          = Inr s)"
proof (cases "maxv batch")
  case (Inl e)
  then show ?thesis by (simp add: lordstar_batch_faster_def)
next
  case (Inr M')
  then have ne: "batch \<noteq> []" by (simp add: maxv_eq_Inr)
  then have r0: "rd batch 0 = Inr (batch ! 0)" by (simp add: rd_def)
  show ?thesis
  proof (cases "M' < 0")
    case True
    then show ?thesis using Inr by (auto simp: lordstar_batch_faster_def)
  next
    case False
    then have "int (nat M') = M'" by simp
    then have ex: "(\<exists>M. M' = int M \<and> Q M) \<longleftrightarrow> Q (nat M')" for Q
      by (metis nat_int)
    show ?thesis
      using False ne
      by (simp add: lordstar_batch_faster_def Inr r0 Let_def and_then_eq_Inr ex)
  qed
qed

lemma batch_run_inv:
  assumes "lordstar_batch_faster pval batch batchsum gammai w0 alpha = Inr s"
  shows "\<exists>M. maxv batch = Inr (int M) \<and>
           batch_inv pval batch batchsum gammai w0 alpha M (length batch) 0 s"
proof -
  from assms obtain M s1 where M: "maxv batch = Inr (int M)" and ne: "batch \<noteq> []"
    and l0: "for_loop 0 (batch ! 0) (batch0_body pval gammai w0)
          \<lparr>alphaim = replicate (length batch) (replicate M 0),
           Rm = replicate (length batch) (replicate M False)\<rparr> = Inr s1"
    and l: "for_loop 1 (int (length batch)) (batch_step pval batch batchsum gammai w0 alpha) s1
          = Inr s"
    unfolding lordstar_batch_faster_eq_Inr by blast
  from ne have pos: "0 < length batch" by simp
  have i1: "batch_inv pval batch batchsum gammai w0 alpha M 1 0 s1"
    by (rule batch0_loop_inv[OF l0 refl pos M batch_inv_initial])
  have "batch_inv pval batch batchsum gammai w0 alpha M (nat (int (length batch))) 0 s"
  proof (rule for_loop_invariant[OF l,
        where P = "\<lambda>k u. batch_inv pval batch batchsum gammai w0 alpha M (nat k) 0 u"])
    show "batch_inv pval batch batchsum gammai w0 alpha M (nat 1) 0 s1"
      using i1 by simp
    show "1 \<le> int (length batch)" using ne by (cases batch) simp_all
    fix k u u'
    assume k: "1 \<le> k" "k < int (length batch)"
      and u: "batch_inv pval batch batchsum gammai w0 alpha M (nat k) 0 u"
      and st: "batch_step pval batch batchsum gammai w0 alpha k u = Inr u'"
    have "batch_inv pval batch batchsum gammai w0 alpha M (Suc (nat k)) 0 u'"
    proof (rule batch_step_inv[OF _ _ _ M u])
      show "batch_step pval batch batchsum gammai w0 alpha (int (nat k)) u = Inr u'"
        using st k by simp
      show "1 \<le> nat k" using k by simp
      show "nat k < length batch" using k by simp
    qed
    then show "batch_inv pval batch batchsum gammai w0 alpha M (nat (k + 1)) 0 u'"
      using k by (simp add: nat_add_distrib)
  qed
  with M show ?thesis by auto
qed

section \<open>The claims about the returned decisions and thresholds\<close>

lemma lordstar_async_faster_eq_Inr:
  "lordstar_async_faster pval E gammai w0 alpha = Inr (p, a, d) \<longleftrightarrow>
     (\<exists>h. async_run pval E gammai w0 alpha = Inr h \<and> p = pval \<and> a = alphai h \<and> d = R h)"
  by (auto simp: lordstar_async_faster_def and_then_eq_Inr)

lemma lordstar_dep_faster_eq_Inr:
  "lordstar_dep_faster pval L gammai w0 alpha = Inr (p, l, a, d) \<longleftrightarrow>
     (\<exists>h. dep_run pval L gammai w0 alpha = Inr h \<and> p = pval \<and> l = L \<and> a = alphai h \<and> d = R h)"
  by (auto simp: lordstar_dep_faster_def and_then_eq_Inr)

lemma hist_inv_decisions:
  assumes "hist_inv pval gammai w0 alpha (length pval) h"
  shows "length (alphai h) = length pval \<and> length (R h) = length pval \<and>
         (\<forall>i<length pval. R h ! i = (pval ! i \<le> alphai h ! i))"
  using assms unfolding hist_inv_def by blast


lemma async_run_gammai: "async_run pval E gammai w0 alpha = Inr h \<Longrightarrow> gammai \<noteq> []"
  by (auto simp: async_run_eq_Inr seed_eq_Inr)

lemma dep_run_gammai: "dep_run pval L gammai w0 alpha = Inr h \<Longrightarrow> gammai \<noteq> []"
  by (auto simp: dep_run_eq_Inr seed_eq_Inr)

lemma batch_inv_rows:
  assumes "batch_inv pval batch batchsum gammai w0 alpha M b x s"
    and "maxv batch = Inr (int M)" and "b' < length batch" and "int x' < batch ! b'"
  shows "b' < length (Rm s) \<and> b' < length (alphaim s) \<and>
         x' < length (Rm s ! b') \<and> x' < length (alphaim s ! b')"
proof -
  from assms(1) have len: "length (alphaim s) = length batch" "length (Rm s) = length batch"
    and rows: "\<forall>row\<in>set (alphaim s). length row = M" "\<forall>row\<in>set (Rm s). length row = M"
    unfolding batch_inv_def by blast+
  have "batch ! b' \<le> int M" using maxv_ge[OF assms(2,3)] .
  with assms(4) have "x' < M" by simp
  with len rows assms(3) show ?thesis by simp
qed

text \<open>
  C1. In every result the three procedures return, the decision of a test is true exactly
  when its p-value is at most its threshold. For the async and the dependency procedure
  the test is an index \<open>i\<close> below the number of p-values; for the batch procedure it is
  test \<open>x\<close> of batch \<open>b\<close>, whose p-value is at position \<open>test_index batchsum b x\<close>. The
  comparison is the order of the reals.
\<close>

theorem decision_iff_pvalue_le_threshold:
  "(lordstar_async_faster pval E gammai w0 alpha = Inr (p, a, d) \<longrightarrow>
      length a = length pval \<and> length d = length pval \<and>
      (\<forall>i<length pval. d ! i = (pval ! i \<le> a ! i)))
   \<and> (lordstar_dep_faster pval L gammai w0 alpha = Inr (p', l', a', d') \<longrightarrow>
      length a' = length pval \<and> length d' = length pval \<and>
      (\<forall>i<length pval. d' ! i = (pval ! i \<le> a' ! i)))
   \<and> (lordstar_batch_faster pval batch batchsum gammai w0 alpha = Inr s \<longrightarrow>
      (\<forall>b x. b < length batch \<and> int x < batch ! b \<longrightarrow>
         b < length (Rm s) \<and> b < length (alphaim s) \<and>
         x < length (Rm s ! b) \<and> x < length (alphaim s ! b) \<and>
         0 \<le> test_index batchsum b x \<and> test_index batchsum b x < int (length pval) \<and>
         Rm s ! b ! x = (pval ! nat (test_index batchsum b x) \<le> alphaim s ! b ! x)))"
proof -
  have A: "length a = length pval \<and> length d = length pval \<and>
      (\<forall>i<length pval. d ! i = (pval ! i \<le> a ! i))"
    if "lordstar_async_faster pval E gammai w0 alpha = Inr (p, a, d)"
  proof -
    from that obtain h where "async_run pval E gammai w0 alpha = Inr h" "a = alphai h" "d = R h"
      by (auto simp: lordstar_async_faster_eq_Inr)
    with hist_inv_decisions[OF async_run_hist_inv] show ?thesis by blast
  qed
  have B: "length a' = length pval \<and> length d' = length pval \<and>
      (\<forall>i<length pval. d' ! i = (pval ! i \<le> a' ! i))"
    if "lordstar_dep_faster pval L gammai w0 alpha = Inr (p', l', a', d')"
  proof -
    from that obtain h where "dep_run pval L gammai w0 alpha = Inr h" "a' = alphai h" "d' = R h"
      by (auto simp: lordstar_dep_faster_eq_Inr)
    with hist_inv_decisions[OF dep_run_hist_inv] show ?thesis by blast
  qed
  have C: "\<forall>b x. b < length batch \<and> int x < batch ! b \<longrightarrow>
         b < length (Rm s) \<and> b < length (alphaim s) \<and>
         x < length (Rm s ! b) \<and> x < length (alphaim s ! b) \<and>
         0 \<le> test_index batchsum b x \<and> test_index batchsum b x < int (length pval) \<and>
         Rm s ! b ! x = (pval ! nat (test_index batchsum b x) \<le> alphaim s ! b ! x)"
    if "lordstar_batch_faster pval batch batchsum gammai w0 alpha = Inr s"
  proof -
    from batch_run_inv[OF that] obtain M where M: "maxv batch = Inr (int M)"
      and inv: "batch_inv pval batch batchsum gammai w0 alpha M (length batch) 0 s"
      by blast
    from inv have cells:
      "\<forall>b' x'. (b' < length batch \<and> int x' < batch ! b') \<or> (b' = length batch \<and> x' < 0) \<longrightarrow>
        0 \<le> test_index batchsum b' x' \<and> test_index batchsum b' x' < int (length pval) \<and>
        test_index batchsum b' x' < int (length gammai) \<and>
        Rm s ! b' ! x' = (pval ! nat (test_index batchsum b' x') \<le> alphaim s ! b' ! x')"
      unfolding batch_inv_def by blast
    show ?thesis
    proof (intro allI impI)
      fix b x assume bx: "b < length batch \<and> int x < batch ! b"
      then have "b < length (Rm s) \<and> b < length (alphaim s) \<and>
         x < length (Rm s ! b) \<and> x < length (alphaim s ! b)"
        using batch_inv_rows[OF inv M] by blast
      moreover from cells bx have
        "0 \<le> test_index batchsum b x \<and> test_index batchsum b x < int (length pval) \<and>
        Rm s ! b ! x = (pval ! nat (test_index batchsum b x) \<le> alphaim s ! b ! x)"
        by blast
      ultimately show "b < length (Rm s) \<and> b < length (alphaim s) \<and>
         x < length (Rm s ! b) \<and> x < length (alphaim s ! b) \<and>
         0 \<le> test_index batchsum b x \<and> test_index batchsum b x < int (length pval) \<and>
         Rm s ! b ! x = (pval ! nat (test_index batchsum b x) \<le> alphaim s ! b ! x)"
        by blast
    qed
  qed
  show ?thesis
    using A B C by blast
qed

lemma ex_async: "lordstar_async_faster [1/1000, 1/5, 3/100, 1/2, 1/50] [1, 2, 3, 4, 5]
       [2/5, 1/4, 3/20, 1/10, 1/10] (1/200) (1/20)
     = Inr ([1/1000, 1/5, 3/100, 1/2, 1/50],
            [1/500, 77/4000, 3/250, 29/4000, 1/200],
            [True, False, False, False, False])"
  by code_simp

lemma ex_dep: "lordstar_dep_faster [1/1000, 1/5, 3/100, 1/2, 1/50] [0, 0, 0, 0, 0]
       [2/5, 1/4, 3/20, 1/10, 1/10] (1/200) (1/20)
     = Inr ([1/1000, 1/5, 3/100, 1/2, 1/50], [0, 0, 0, 0, 0],
            [1/500, 77/4000, 3/250, 29/4000, 1/200],
            [True, False, False, False, False])"
  by code_simp

lemma ex_batch: "lordstar_batch_faster [1/1000, 1/5, 3/100, 1/2, 1/50] [2, 3] [2, 5]
       [2/5, 1/4, 3/20, 1/10, 1/10] (1/200) (1/20)
     = Inr \<lparr>alphaim = [[1/500, 1/800, 0], [3/160, 47/4000, 29/4000]],
            Rm = [[True, False, False], [False, False, False]]\<rparr>"
  by code_simp


theorem decision_iff_pvalue_le_threshold_witness:
  "lordstar_async_faster [1/1000, 1/5, 3/100, 1/2, 1/50] [1, 2, 3, 4, 5]
       [2/5, 1/4, 3/20, 1/10, 1/10] (1/200) (1/20)
     = Inr ([1/1000, 1/5, 3/100, 1/2, 1/50],
            [1/500, 77/4000, 3/250, 29/4000, 1/200],
            [True, False, False, False, False])
   \<and> [True, False, False, False, False] ! 2
       = ([1/1000, 1/5, 3/100, 1/2, 1/50 :: real] ! 2
            \<le> [1/500, 77/4000, 3/250, 29/4000, 1/200] ! 2)
   \<and> lordstar_dep_faster [1/1000, 1/5, 3/100, 1/2, 1/50] [0, 0, 0, 0, 0]
       [2/5, 1/4, 3/20, 1/10, 1/10] (1/200) (1/20)
     = Inr ([1/1000, 1/5, 3/100, 1/2, 1/50], [0, 0, 0, 0, 0],
            [1/500, 77/4000, 3/250, 29/4000, 1/200],
            [True, False, False, False, False])
   \<and> [True, False, False, False, False] ! 0
       = ([1/1000, 1/5, 3/100, 1/2, 1/50 :: real] ! 0
            \<le> [1/500, 77/4000, 3/250, 29/4000, 1/200] ! 0)
   \<and> lordstar_batch_faster [1/1000, 1/5, 3/100, 1/2, 1/50] [2, 3] [2, 5]
       [2/5, 1/4, 3/20, 1/10, 1/10] (1/200) (1/20)
     = Inr \<lparr>alphaim = [[1/500, 1/800, 0], [3/160, 47/4000, 29/4000]],
            Rm = [[True, False, False], [False, False, False]]\<rparr>
   \<and> [[True, False, False], [False, False, False]] ! 1 ! 2
       = ([1/1000, 1/5, 3/100, 1/2, 1/50 :: real] ! nat (test_index [2, 5] 1 2)
            \<le> [[1/500, 1/800, 0], [3/160, 47/4000, 29/4000]] ! 1 ! 2)"
proof -
  note t = decision_iff_pvalue_le_threshold[of
      "[1/1000, 1/5, 3/100, 1/2, 1/50]" "[1, 2, 3, 4, 5]" "[2/5, 1/4, 3/20, 1/10, 1/10]"
      "1/200" "1/20" "[1/1000, 1/5, 3/100, 1/2, 1/50]"
      "[1/500, 77/4000, 3/250, 29/4000, 1/200]" "[True, False, False, False, False]"
      "[0, 0, 0, 0, 0]" "[1/1000, 1/5, 3/100, 1/2, 1/50]" "[0, 0, 0, 0, 0]"
      "[1/500, 77/4000, 3/250, 29/4000, 1/200]" "[True, False, False, False, False]"
      "[2, 3]" "[2, 5]"
      "\<lparr>alphaim = [[1/500, 1/800, 0], [3/160, 47/4000, 29/4000]],
        Rm = [[True, False, False], [False, False, False]]\<rparr>"]
  from t ex_async have a: "\<forall>i<length [1/1000, 1/5, 3/100, 1/2, 1/50 :: real].
      [True, False, False, False, False] ! i
       = ([1/1000, 1/5, 3/100, 1/2, 1/50 :: real] ! i
            \<le> [1/500, 77/4000, 3/250, 29/4000, 1/200] ! i)"
    by blast
  from t ex_dep have b: "\<forall>i<length [1/1000, 1/5, 3/100, 1/2, 1/50 :: real].
      [True, False, False, False, False] ! i
       = ([1/1000, 1/5, 3/100, 1/2, 1/50 :: real] ! i
            \<le> [1/500, 77/4000, 3/250, 29/4000, 1/200] ! i)"
    by blast
  from t ex_batch have "1 < length [2, 3 :: int] \<and> int 2 < [2, 3] ! 1 \<longrightarrow>
      Rm \<lparr>alphaim = [[1/500, 1/800, 0], [3/160, 47/4000, 29/4000]],
        Rm = [[True, False, False], [False, False, False]]\<rparr> ! 1 ! 2
       = ([1/1000, 1/5, 3/100, 1/2, 1/50 :: real] ! nat (test_index [2, 5] 1 2)
            \<le> alphaim \<lparr>alphaim = [[1/500, 1/800, 0], [3/160, 47/4000, 29/4000]],
        Rm = [[True, False, False], [False, False, False]]\<rparr> ! 1 ! 2)"
    by blast
  then have c: "[[True, False, False], [False, False, False]] ! 1 ! 2
       = ([1/1000, 1/5, 3/100, 1/2, 1/50 :: real] ! nat (test_index [2, 5] 1 2)
            \<le> [[1/500, 1/800, 0], [3/160, 47/4000, 29/4000]] ! 1 ! 2)"
    by simp
  from a have a2: "[True, False, False, False, False] ! 2
       = ([1/1000, 1/5, 3/100, 1/2, 1/50 :: real] ! 2
            \<le> [1/500, 77/4000, 3/250, 29/4000, 1/200] ! 2)"
    by simp
  from b have b0: "[True, False, False, False, False] ! 0
       = ([1/1000, 1/5, 3/100, 1/2, 1/50 :: real] ! 0
            \<le> [1/500, 77/4000, 3/250, 29/4000, 1/200] ! 0)"
    by simp
  show ?thesis
    by (intro conjI ex_async ex_dep ex_batch a2 b0 c)
qed

lemma hist_inv_seed:
  assumes "hist_inv pval gammai w0 alpha (length pval) h"
  shows "alphai h ! 0 = gammai ! 0 * w0 \<and> length (alphai h) = length pval"
  using assms unfolding hist_inv_def by blast

lemma async_run_pval: "async_run pval E gammai w0 alpha = Inr h \<Longrightarrow> pval \<noteq> []"
  by (auto simp: async_run_eq_Inr seed_eq_Inr)

lemma dep_run_pval: "dep_run pval L gammai w0 alpha = Inr h \<Longrightarrow> pval \<noteq> []"
  by (auto simp: dep_run_eq_Inr seed_eq_Inr)

text \<open>
  C7. In every result of the async and of the dependency procedure the threshold of step 0
  is \<open>gammai[0] * w0\<close>, and in every result of the batch procedure the threshold of test
  \<open>i\<close> of batch 0 is \<open>gammai[i] * w0\<close>: no other input enters these values.
\<close>

theorem step0_seeded:
  "(lordstar_async_faster pval E gammai w0 alpha = Inr (p, a, d) \<longrightarrow>
      gammai \<noteq> [] \<and> a \<noteq> [] \<and> a ! 0 = gammai ! 0 * w0)
   \<and> (lordstar_dep_faster pval L gammai w0 alpha = Inr (p', l', a', d') \<longrightarrow>
      gammai \<noteq> [] \<and> a' \<noteq> [] \<and> a' ! 0 = gammai ! 0 * w0)
   \<and> (lordstar_batch_faster pval batch batchsum gammai w0 alpha = Inr s \<longrightarrow>
      (\<forall>i. int i < batch ! 0 \<longrightarrow>
         i < length gammai \<and> alphaim s \<noteq> [] \<and> i < length (alphaim s ! 0) \<and>
         alphaim s ! 0 ! i = gammai ! i * w0))"
proof -
  have A: "gammai \<noteq> [] \<and> a \<noteq> [] \<and> a ! 0 = gammai ! 0 * w0"
    if "lordstar_async_faster pval E gammai w0 alpha = Inr (p, a, d)"
  proof -
    from that obtain h where h: "async_run pval E gammai w0 alpha = Inr h" "a = alphai h"
      by (auto simp: lordstar_async_faster_eq_Inr)
    from hist_inv_seed[OF async_run_hist_inv[OF h(1)]] async_run_gammai[OF h(1)]
      async_run_pval[OF h(1)] h(2)
    show ?thesis by auto
  qed
  have B: "gammai \<noteq> [] \<and> a' \<noteq> [] \<and> a' ! 0 = gammai ! 0 * w0"
    if "lordstar_dep_faster pval L gammai w0 alpha = Inr (p', l', a', d')"
  proof -
    from that obtain h where h: "dep_run pval L gammai w0 alpha = Inr h" "a' = alphai h"
      by (auto simp: lordstar_dep_faster_eq_Inr)
    from hist_inv_seed[OF dep_run_hist_inv[OF h(1)]] dep_run_gammai[OF h(1)]
      dep_run_pval[OF h(1)] h(2)
    show ?thesis by auto
  qed
  have C: "\<forall>i. int i < batch ! 0 \<longrightarrow>
         i < length gammai \<and> alphaim s \<noteq> [] \<and> i < length (alphaim s ! 0) \<and>
         alphaim s ! 0 ! i = gammai ! i * w0"
    if "lordstar_batch_faster pval batch batchsum gammai w0 alpha = Inr s"
  proof -
    from batch_run_inv[OF that] obtain M where M: "maxv batch = Inr (int M)"
      and inv: "batch_inv pval batch batchsum gammai w0 alpha M (length batch) 0 s"
      by blast
    from M have pos: "0 < length batch" by (simp add: maxv_eq_Inr)
    from inv have seeds:
      "\<forall>x'. (0 < length batch \<and> int x' < batch ! 0) \<or> (length batch = 0 \<and> x' < 0) \<longrightarrow>
        x' < length gammai \<and> alphaim s ! 0 ! x' = gammai ! x' * w0"
      unfolding batch_inv_def by blast
    show ?thesis
    proof (intro allI impI)
      fix i assume i: "int i < batch ! 0"
      from batch_inv_rows[OF inv M pos i]
      have "alphaim s \<noteq> [] \<and> i < length (alphaim s ! 0)" by auto
      moreover from seeds pos i
      have "i < length gammai \<and> alphaim s ! 0 ! i = gammai ! i * w0" by blast
      ultimately show "i < length gammai \<and> alphaim s \<noteq> [] \<and> i < length (alphaim s ! 0) \<and>
         alphaim s ! 0 ! i = gammai ! i * w0"
        by blast
    qed
  qed
  show ?thesis
    using A B C by blast
qed

theorem step0_seeded_witness:
  "lordstar_async_faster [1/1000, 1/5, 3/100, 1/2, 1/50] [1, 2, 3, 4, 5]
       [2/5, 1/4, 3/20, 1/10, 1/10] (1/200) (1/20)
     = Inr ([1/1000, 1/5, 3/100, 1/2, 1/50],
            [1/500, 77/4000, 3/250, 29/4000, 1/200],
            [True, False, False, False, False])
   \<and> [1/500, 77/4000, 3/250, 29/4000, 1/200] ! 0
       = [2/5, 1/4, 3/20, 1/10, 1/10 :: real] ! 0 * (1/200)
   \<and> lordstar_dep_faster [1/1000, 1/5, 3/100, 1/2, 1/50] [0, 0, 0, 0, 0]
       [2/5, 1/4, 3/20, 1/10, 1/10] (1/200) (1/20)
     = Inr ([1/1000, 1/5, 3/100, 1/2, 1/50], [0, 0, 0, 0, 0],
            [1/500, 77/4000, 3/250, 29/4000, 1/200],
            [True, False, False, False, False])
   \<and> [1/500, 77/4000, 3/250, 29/4000, 1/200] \<noteq> ([] :: real list)
   \<and> lordstar_batch_faster [1/1000, 1/5, 3/100, 1/2, 1/50] [2, 3] [2, 5]
       [2/5, 1/4, 3/20, 1/10, 1/10] (1/200) (1/20)
     = Inr \<lparr>alphaim = [[1/500, 1/800, 0], [3/160, 47/4000, 29/4000]],
            Rm = [[True, False, False], [False, False, False]]\<rparr>
   \<and> int 1 < [2, 3] ! 0
   \<and> [[1/500, 1/800, 0], [3/160, 47/4000, 29/4000]] ! 0 ! 1
       = [2/5, 1/4, 3/20, 1/10, 1/10 :: real] ! 1 * (1/200)"
proof -
  note t = step0_seeded[of
      "[1/1000, 1/5, 3/100, 1/2, 1/50]" "[1, 2, 3, 4, 5]" "[2/5, 1/4, 3/20, 1/10, 1/10]"
      "1/200" "1/20" "[1/1000, 1/5, 3/100, 1/2, 1/50]"
      "[1/500, 77/4000, 3/250, 29/4000, 1/200]" "[True, False, False, False, False]"
      "[0, 0, 0, 0, 0]" "[1/1000, 1/5, 3/100, 1/2, 1/50]" "[0, 0, 0, 0, 0]"
      "[1/500, 77/4000, 3/250, 29/4000, 1/200]" "[True, False, False, False, False]"
      "[2, 3]" "[2, 5]"
      "\<lparr>alphaim = [[1/500, 1/800, 0], [3/160, 47/4000, 29/4000]],
        Rm = [[True, False, False], [False, False, False]]\<rparr>"]
  from t ex_async have a: "[1/500, 77/4000, 3/250, 29/4000, 1/200] ! 0
       = [2/5, 1/4, 3/20, 1/10, 1/10 :: real] ! 0 * (1/200)"
    by blast
  from t ex_dep have d: "[1/500, 77/4000, 3/250, 29/4000, 1/200] \<noteq> ([] :: real list)"
    by blast
  have i: "int 1 < [2, 3] ! 0" by simp
  from t ex_batch have "int 1 < [2, 3] ! 0 \<longrightarrow>
      alphaim \<lparr>alphaim = [[1/500, 1/800, 0], [3/160, 47/4000, 29/4000]],
        Rm = [[True, False, False], [False, False, False]]\<rparr> ! 0 ! 1
       = [2/5, 1/4, 3/20, 1/10, 1/10 :: real] ! 1 * (1/200)"
    by blast
  with i have c: "[[1/500, 1/800, 0], [3/160, 47/4000, 29/4000]] ! 0 ! 1
       = [2/5, 1/4, 3/20, 1/10, 1/10 :: real] ! 1 * (1/200)"
    by simp
  show ?thesis
    by (intro conjI ex_async ex_dep ex_batch a d i c)
qed





text \<open>
  C10. With a single p-value the async procedure has no result: the buffer
  \<^verbatim>\<open>Rdectest\<close> has length 1 and line 31 writes its index 1, whatever the other
  inputs are. (The run reaches that write unless \<open>gammai\<close> is empty, in which case the
  read of \<^verbatim>\<open>gammai[0]\<close> is already outside the vector.)
\<close>

theorem async_single_test_out_of_bounds:
  assumes "length pval = 1"
  shows "wr (replicate (length pval) (0::real)) 1 1 = Inl OutOfBounds
       \<and> lordstar_async_faster pval E gammai w0 alpha = Inl OutOfBounds"
proof -
  have w: "wr (replicate (length pval) (0::real)) 1 1 = Inl OutOfBounds"
    using assms by (simp add: wr_def)
  have "async_run pval E gammai w0 alpha = Inl OutOfBounds"
  proof (cases "seed pval gammai w0")
    case (Inl e)
    then show ?thesis
      using seed_fault[OF Inl] by (simp add: async_run_def Let_def)
  next
    case (Inr h)
    then show ?thesis
      using w by (simp add: async_run_def Let_def)
  qed
  then show ?thesis
    using w by (simp add: lordstar_async_faster_def)
qed

theorem async_single_test_out_of_bounds_witness:
  "length [1/1000 :: real] = 1
   \<and> lordstar_async_faster [1/1000] [1] [2/5] (1/200) (1/20) = Inl OutOfBounds
   \<and> lordstar_dep_faster [1/1000] [0] [2/5] (1/200) (1/20)
       = Inr ([1/1000], [0], [1/500], [True])"
proof -
  have l: "length [1/1000 :: real] = 1" by simp
  have d: "lordstar_dep_faster [1/1000] [0] [2/5] (1/200) (1/20)
       = Inr ([1/1000], [0], [1/500], [True])"
    by code_simp
  from async_single_test_out_of_bounds[OF l, of "[1]" "[2/5]" "1/200" "1/20"]
  have a: "lordstar_async_faster [1/1000] [1] [2/5] (1/200) (1/20) = Inl OutOfBounds"
    by blast
  show ?thesis
    by (intro conjI l a d)
qed

section \<open>The thresholds of the async procedure\<close>

lemma async_scan_eq_Inr:
  "async_scan Rv E i j cond = Inr c' \<longleftrightarrow>
     0 \<le> j \<and> j < int (length Rv) \<and> (Rv ! nat j \<longrightarrow> j < int (length E)) \<and>
     c' = (if Rv ! nat j \<and> E ! nat j - 1 \<le> i - 1 then cond + 1 else cond)"
  by (auto simp: async_scan_def and_then_eq_Inr rd_eq_Inr)

lemma async_scan_count:
  assumes l: "for_loop 0 i (async_scan Rv E i) 0 = Inr cond" and i: "0 \<le> i"
  shows "cond = async_visible Rv E (nat i)"
proof -
  have "cond = int (length (filter (\<lambda>j. Rv ! j \<and> E ! j - 1 \<le> i - 1) [0..<nat i]))"
  proof (rule for_loop_invariant[OF l,
        where P = "\<lambda>k c. c = int (length (filter (\<lambda>j. Rv ! j \<and> E ! j - 1 \<le> i - 1) [0..<nat k]))"])
    show "0 = int (length (filter (\<lambda>j. Rv ! j \<and> E ! j - 1 \<le> i - 1) [0..<nat 0]))"
      by simp
    show "0 \<le> i" by fact
    fix k u u'
    assume k: "0 \<le> k" "k < i"
      and u: "u = int (length (filter (\<lambda>j. Rv ! j \<and> E ! j - 1 \<le> i - 1) [0..<nat k]))"
      and b: "async_scan Rv E i k u = Inr u'"
    have e: "[0..<nat (k + 1)] = [0..<nat k] @ [nat k]"
      using k by (simp add: nat_add_distrib)
    from b have "u' = (if Rv ! nat k \<and> E ! nat k - 1 \<le> i - 1 then u + 1 else u)"
      by (simp add: async_scan_eq_Inr)
    then show "u' = int (length (filter (\<lambda>j. Rv ! j \<and> E ! j - 1 \<le> i - 1) [0..<nat (k + 1)]))"
      unfolding e using u by simp
  qed
  then show ?thesis
    using i by (simp add: async_visible_def)
qed

lemma async_visible_cong:
  assumes "\<forall>j<k. Rv ! j = Rv' ! j"
  shows "async_visible Rv E k = async_visible Rv' E k"
proof -
  have "filter (\<lambda>j. Rv ! j \<and> E ! j - 1 \<le> int k - 1) [0..<k]
      = filter (\<lambda>j. Rv' ! j \<and> E ! j - 1 \<le> int k - 1) [0..<k]"
    using assms by (intro filter_cong) auto
  then show ?thesis by (simp add: async_visible_def)
qed

lemma async_run_counts:
  assumes "async_run pval E gammai w0 alpha = Inr h"
  shows "Rvis h = map (async_visible (R h) E) [1..<length pval]"
proof -
  from assms obtain h0 where s: "seed pval gammai w0 = Inr h0"
    and l: "for_loop 1 (int (length pval)) (async_step pval E gammai w0 alpha) h0 = Inr h"
    and n: "2 \<le> length pval"
    by (auto simp: async_run_eq_Inr)
  have "hist_inv pval gammai w0 alpha (nat (int (length pval))) h \<and>
        Rvis h = map (async_visible (R h) E) [1..<nat (int (length pval))]"
  proof (rule for_loop_invariant[OF l,
        where P = "\<lambda>k u. hist_inv pval gammai w0 alpha (nat k) u \<and>
                    Rvis u = map (async_visible (R u) E) [1..<nat k]"])
    show "hist_inv pval gammai w0 alpha (nat 1) h0 \<and>
          Rvis h0 = map (async_visible (R h0) E) [1..<nat 1]"
      using seed_hist_inv[OF s] s by (simp add: seed_eq_Inr)
    show "1 \<le> int (length pval)" using n by simp
    fix k u u'
    assume k: "1 \<le> k" "k < int (length pval)"
      and P: "hist_inv pval gammai w0 alpha (nat k) u \<and>
              Rvis u = map (async_visible (R u) E) [1..<nat k]"
      and st: "async_step pval E gammai w0 alpha k u = Inr u'"
    from st obtain cond m where c: "for_loop 0 k (async_scan (R u) E k) 0 = Inr cond"
      and m: "maxv (Rvis u @ [cond]) = Inr m"
      and d: "decide pval gammai w0 alpha (int (nat k)) (Rvis u @ [cond])
          (invert_counts (Rvis u @ [cond]) m) u = Inr u'"
      using k by (auto simp: async_step_eq_Inr)
    have inv': "hist_inv pval gammai w0 alpha (Suc (nat k)) u'"
      using decide_hist_inv[OF _ m d] P by blast
    from d have R': "R u' = (R u)[nat k := (pval ! nat k \<le> alphai u' ! nat k)]"
      and V': "Rvis u' = Rvis u @ [cond]"
      by (auto simp: decide_eq_Inr)
    have same: "async_visible (R u') E j = async_visible (R u) E j" if "j \<le> nat k" for j
      using that by (intro async_visible_cong) (simp add: R')
    have cond: "cond = async_visible (R u) E (nat k)"
      using async_scan_count[OF c] k by simp
    have e: "[1..<nat (k + 1)] = [1..<nat k] @ [nat k]"
      using k by (simp add: nat_add_distrib)
    have "Rvis u' = map (async_visible (R u') E) [1..<nat (k + 1)]"
      unfolding e V' using P cond same by simp
    with inv' show "hist_inv pval gammai w0 alpha (nat (k + 1)) u' \<and>
        Rvis u' = map (async_visible (R u') E) [1..<nat (k + 1)]"
      using k by (simp add: nat_add_distrib)
  qed
  then show ?thesis by simp
qed

text \<open>
  C2. Take a result of the async procedure and a step \<open>i \<ge> 1\<close>. Let \<open>c\<close> be the counts
  of visible rejections of the steps \<open>1, \<dots>, i\<close> (the count of step \<open>k\<close> is the number of
  rejected \<open>j < k\<close> with \<^verbatim>\<open>E[j]-1 <= k-1\<close>), \<open>m\<close> their maximum and \<open>r\<close> the inversion
  of \<open>c\<close> (empty unless \<open>m > 0\<close>). Then every index used lies inside \<open>gammai\<close>, and the
  threshold of step \<open>i\<close> is \<open>gammai[i] * w0\<close> if \<open>r\<close> is empty, has the added term
  \<open>(alpha - w0) * gammai[i - r[0] - 1]\<close> if \<open>r\<close> has one element, and has in addition
  \<open>alpha\<close> times the sum of \<open>gammai[i - r[g] - 1]\<close> over \<open>1 \<le> g < length r\<close> if \<open>r\<close> has more.
\<close>

theorem async_threshold_formula:
  assumes "lordstar_async_faster pval E gammai w0 alpha = Inr (p, a, d)"
    and "1 \<le> i" and "i < length pval"
  shows "\<exists>m. maxv (map (async_visible d E) [1..<Suc i]) = Inr m \<and>
     (let r = (if m > 0 then invert_counts (map (async_visible d E) [1..<Suc i]) m else []) in
        i < length gammai \<and>
        (\<forall>z\<in>set r. 0 \<le> int i - z - 1 \<and> int i - z - 1 < int (length gammai)) \<and>
        (r = [] \<longrightarrow> a ! i = gammai ! i * w0) \<and>
        (length r = 1 \<longrightarrow>
           a ! i = gammai ! i * w0 + (alpha - w0) * gammai ! nat (int i - r ! 0 - 1)) \<and>
        (length r > 1 \<longrightarrow>
           a ! i = gammai ! i * w0 + (alpha - w0) * gammai ! nat (int i - r ! 0 - 1)
                   + alpha * (\<Sum>g = 1..<length r. gammai ! nat (int i - r ! g - 1))))"
proof -
  from assms(1) obtain h where h: "async_run pval E gammai w0 alpha = Inr h"
    and a: "a = alphai h" and d: "d = R h"
    by (auto simp: lordstar_async_faster_eq_Inr)
  have V: "Rvis h = map (async_visible d E) [1..<length pval]"
    using async_run_counts[OF h] d by simp
  have tk: "take i (Rvis h) = map (async_visible d E) [1..<Suc i]"
    unfolding V using assms(2,3) by (simp add: take_map take_upt)
  from async_run_hist_inv[OF h] have
    "\<forall>k. 1 \<le> k \<and> k < length pval \<longrightarrow>
        (\<exists>m. maxv (take k (Rvis h)) = Inr m \<and>
             threshold gammai w0 alpha (int k) (invert_counts (take k (Rvis h)) m)
               = Inr (alphai h ! k))"
    unfolding hist_inv_def by (elim conjE)
  then have "1 \<le> i \<and> i < length pval \<longrightarrow>
        (\<exists>m. maxv (take i (Rvis h)) = Inr m \<and>
             threshold gammai w0 alpha (int i) (invert_counts (take i (Rvis h)) m)
               = Inr (alphai h ! i))"
    by (rule spec)
  with assms(2,3) obtain m where m: "maxv (take i (Rvis h)) = Inr m"
    and t: "threshold gammai w0 alpha (int i) (invert_counts (take i (Rvis h)) m)
               = Inr (alphai h ! i)"
    by blast
  define r where "r = invert_counts (map (async_visible d E) [1..<Suc i]) m"
  have r: "(if m > 0 then invert_counts (map (async_visible d E) [1..<Suc i]) m else []) = r"
    by (simp add: r_def invert_counts_empty)
  from t have t': "threshold gammai w0 alpha (int i) r = Inr (a ! i)"
    unfolding tk r_def a .
  note f = threshold_eq_Inr[THEN iffD1, OF t']
  have f1: "i < length gammai" using f by linarith
  have f2: "\<forall>z\<in>set r. 0 \<le> int i - z - 1 \<and> int i - z - 1 < int (length gammai)"
    using f by (elim conjE)
  have f3: "a ! i = (if r = [] then gammai ! nat (int i) * w0
          else if length r = 1 then
            gammai ! nat (int i) * w0 + (alpha - w0) * gammai ! nat (int i - r ! 0 - 1)
          else gammai ! nat (int i) * w0 + (alpha - w0) * gammai ! nat (int i - r ! 0 - 1)
               + alpha * (\<Sum>g = 1..<length r. gammai ! nat (int i - r ! g - 1)))"
    using f by (elim conjE)
  have g1: "r = [] \<longrightarrow> a ! i = gammai ! i * w0"
    using f3 by simp
  have g2: "length r = 1 \<longrightarrow>
           a ! i = gammai ! i * w0 + (alpha - w0) * gammai ! nat (int i - r ! 0 - 1)"
  proof
    assume l: "length r = 1"
    then have "r \<noteq> []" by auto
    with f3 l show "a ! i = gammai ! i * w0 + (alpha - w0) * gammai ! nat (int i - r ! 0 - 1)"
      by simp
  qed
  have g3: "length r > 1 \<longrightarrow>
           a ! i = gammai ! i * w0 + (alpha - w0) * gammai ! nat (int i - r ! 0 - 1)
                   + alpha * (\<Sum>g = 1..<length r. gammai ! nat (int i - r ! g - 1))"
  proof
    assume l: "length r > 1"
    then have "r \<noteq> []" "length r \<noteq> 1" by auto
    with f3 show "a ! i = gammai ! i * w0 + (alpha - w0) * gammai ! nat (int i - r ! 0 - 1)
                   + alpha * (\<Sum>g = 1..<length r. gammai ! nat (int i - r ! g - 1))"
      by simp
  qed
  have mv: "maxv (map (async_visible d E) [1..<Suc i]) = Inr m"
    using m tk by simp
  have "let r = (if m > 0 then invert_counts (map (async_visible d E) [1..<Suc i]) m else []) in
        i < length gammai \<and>
        (\<forall>z\<in>set r. 0 \<le> int i - z - 1 \<and> int i - z - 1 < int (length gammai)) \<and>
        (r = [] \<longrightarrow> a ! i = gammai ! i * w0) \<and>
        (length r = 1 \<longrightarrow>
           a ! i = gammai ! i * w0 + (alpha - w0) * gammai ! nat (int i - r ! 0 - 1)) \<and>
        (length r > 1 \<longrightarrow>
           a ! i = gammai ! i * w0 + (alpha - w0) * gammai ! nat (int i - r ! 0 - 1)
                   + alpha * (\<Sum>g = 1..<length r. gammai ! nat (int i - r ! g - 1)))"
    unfolding Let_def r by (intro conjI f1 f2 g1 g2 g3)
  with mv show ?thesis by blast
qed


lemma ex_async2:
  "lordstar_async_faster [0, 0, 0, 0] [1, 4, 3, 4] [1/2, 1/4, 1/8, 1/16] (1/200) (1/20)
     = Inr ([0, 0, 0, 0], [1/400, 19/800, 19/1600, 99/3200], [True, True, True, True])"
  by code_simp

theorem async_threshold_formula_witness:
  "lordstar_async_faster [0, 0, 0, 0] [1, 4, 3, 4] [1/2, 1/4, 1/8, 1/16] (1/200) (1/20)
     = Inr ([0, 0, 0, 0], [1/400, 19/800, 19/1600, 99/3200], [True, True, True, True])
   \<and> (1::nat) \<le> 3 \<and> 3 < length [0, 0, 0, 0 :: real]
   \<and> map (async_visible [True, True, True, True] [1, 4, 3, 4]) [1..<Suc 3] = [1, 1, 2]
   \<and> maxv [1, 1, 2] = Inr 2
   \<and> invert_counts [1, 1, 2] 2 = [0, 2]
   \<and> [1/400, 19/800, 19/1600, 99/3200 :: real] ! 3
       = [1/2, 1/4, 1/8, 1/16] ! 3 * (1/200)
         + (1/20 - 1/200) * [1/2, 1/4, 1/8, 1/16] ! nat (int 3 - [0, 2] ! 0 - 1)
         + 1/20 * (\<Sum>g = 1..<length [0, 2 :: int].
                     [1/2, 1/4, 1/8, 1/16] ! nat (int 3 - [0, 2] ! g - 1))"
proof -
  have h: "(1::nat) \<le> 3" "3 < length [0, 0, 0, 0 :: real]" by simp_all
  have c: "map (async_visible [True, True, True, True] [1, 4, 3, 4]) [1..<Suc 3] = [1, 1, 2]"
    by code_simp
  have m: "maxv [1, 1, 2] = Inr 2" by simp
  have r: "invert_counts [1, 1, 2] 2 = [0, 2]" by code_simp
  from async_threshold_formula[OF ex_async2 h] obtain m' where
    m': "maxv (map (async_visible [True, True, True, True] [1, 4, 3, 4]) [1..<Suc 3]) = Inr m'"
    and f: "let r = (if m' > 0
              then invert_counts (map (async_visible [True, True, True, True] [1, 4, 3, 4])
                     [1..<Suc 3]) m' else []) in
        length r > 1 \<longrightarrow>
           [1/400, 19/800, 19/1600, 99/3200 :: real] ! 3
             = [1/2, 1/4, 1/8, 1/16] ! 3 * (1/200)
               + (1/20 - 1/200) * [1/2, 1/4, 1/8, 1/16] ! nat (int 3 - r ! 0 - 1)
               + 1/20 * (\<Sum>g = 1..<length r. [1/2, 1/4, 1/8, 1/16] ! nat (int 3 - r ! g - 1))"
    unfolding Let_def by blast
  from m' have "m' = 2" unfolding c m by simp
  with f have t: "[1/400, 19/800, 19/1600, 99/3200 :: real] ! 3
       = [1/2, 1/4, 1/8, 1/16] ! 3 * (1/200)
         + (1/20 - 1/200) * [1/2, 1/4, 1/8, 1/16] ! nat (int 3 - [0, 2] ! 0 - 1)
         + 1/20 * (\<Sum>g = 1..<length [0, 2 :: int].
                     [1/2, 1/4, 1/8, 1/16] ! nat (int 3 - [0, 2] ! g - 1))"
    unfolding c r Let_def by simp
  show ?thesis
    by (intro conjI ex_async2 h c m r t)
qed

section \<open>Lags that reach beyond the history\<close>

lemma dep_step_short_history:
  assumes "dep_step pval L gammai w0 alpha i h = Inr h'" and "i - 1 - L ! nat i < 0"
  shows "Rvis h' = Rvis h @ [0]"
proof -
  from assms(1) obtain cond m where
    c: "(if i - 1 - L ! nat i \<ge> 0 then for_loop 0 (i - L ! nat i) (dep_scan (R h)) 0 else Inr 0)
           = Inr cond"
    and d: "decide pval gammai w0 alpha i (Rvis h @ [cond])
          (invert_counts (Rvis h @ [cond]) m) h = Inr h'"
    unfolding dep_step_eq_Inr by blast
  from c assms(2) have "cond = 0" by simp
  moreover from d have "Rvis h' = Rvis h @ [cond]"
    by (auto simp: decide_eq_Inr)
  ultimately show ?thesis by simp
qed

lemma maxv_replicate_zero: "0 < n \<Longrightarrow> maxv (replicate n 0) = Inr 0"
  by (simp add: maxv_eq_Inr)

lemma dep_run_full_lag:
  assumes run: "dep_run pval L gammai w0 alpha = Inr h"
    and lag: "\<forall>i. 1 \<le> i \<and> i < length pval \<longrightarrow> L ! i = int i"
  shows "Rvis h = replicate (length pval - 1) 0"
    and "\<forall>i. 1 \<le> i \<and> i < length pval \<longrightarrow> alphai h ! i = gammai ! i * w0"
proof -
  from run obtain h0 where s: "seed pval gammai w0 = Inr h0"
    and l: "for_loop 1 (int (length pval)) (dep_step pval L gammai w0 alpha) h0 = Inr h"
    by (auto simp: dep_run_eq_Inr)
  from s have n: "pval \<noteq> []" and v0: "Rvis h0 = []" by (simp_all add: seed_eq_Inr)
  have "Rvis h = replicate (nat (int (length pval)) - 1) 0"
  proof (rule for_loop_invariant[OF l, where P = "\<lambda>k u. Rvis u = replicate (nat k - 1) 0"])
    show "Rvis h0 = replicate (nat 1 - 1) 0" using v0 by simp
    show "1 \<le> int (length pval)" using n by (cases pval) simp_all
    fix k u u'
    assume k: "1 \<le> k" "k < int (length pval)"
      and u: "Rvis u = replicate (nat k - 1) 0"
      and st: "dep_step pval L gammai w0 alpha k u = Inr u'"
    have "1 \<le> nat k \<and> nat k < length pval" using k by linarith
    with lag have "L ! nat k = int (nat k)" by blast
    then have "L ! nat k = k" using k by simp
    then have "k - 1 - L ! nat k < 0" by simp
    from dep_step_short_history[OF st this] u
    have "Rvis u' = replicate (nat k - 1) 0 @ replicate 1 0" by simp
    also have "\<dots> = replicate (nat (k + 1) - 1) 0"
    proof -
      obtain j where j: "nat k = Suc j" using k by (cases "nat k") simp_all
      have "nat (k + 1) = Suc (Suc j)" using j k by linarith
      then show ?thesis
        unfolding j by (simp add: replicate_append_same)
    qed
    finally show "Rvis u' = replicate (nat (k + 1) - 1) 0" .
  qed
  then show V: "Rvis h = replicate (length pval - 1) 0" by simp
  from dep_run_hist_inv[OF run] have thr:
    "\<forall>k. 1 \<le> k \<and> k < length pval \<longrightarrow>
        (\<exists>m. maxv (take k (Rvis h)) = Inr m \<and>
             threshold gammai w0 alpha (int k) (invert_counts (take k (Rvis h)) m)
               = Inr (alphai h ! k))"
    unfolding hist_inv_def by (elim conjE)
  show "\<forall>i. 1 \<le> i \<and> i < length pval \<longrightarrow> alphai h ! i = gammai ! i * w0"
  proof (intro allI impI)
    fix i assume i: "1 \<le> i \<and> i < length pval"
    with thr obtain m where m: "maxv (take i (Rvis h)) = Inr m"
      and t: "threshold gammai w0 alpha (int i) (invert_counts (take i (Rvis h)) m)
               = Inr (alphai h ! i)"
      by blast
    have "i \<le> length pval - 1" using i by linarith
    then have tk: "take i (Rvis h) = replicate i 0"
      by (simp add: V min_def)
    have "m = 0" using m i unfolding tk by (simp add: maxv_replicate_zero)
    then have "threshold gammai w0 alpha (int i) [] = Inr (alphai h ! i)"
      using t by (simp add: invert_counts_empty)
    then show "alphai h ! i = gammai ! i * w0"
      by (simp add: threshold_eq_Inr)
  qed
qed

text \<open>
  C6. In the dependency procedure, if the lag of every step \<open>i \<ge> 1\<close> is \<open>i\<close>, then in
  every result the count appended at each step is 0 and the threshold of each step
  \<open>i \<ge> 1\<close> is \<open>gammai[i] * w0\<close>. And whenever a step \<open>i\<close> has \<open>i - 1 - L[i] < 0\<close>, the
  count it appends is 0.
\<close>

theorem dep_lag_beyond_history:
  "(dep_run pval L gammai w0 alpha = Inr h \<and>
      (\<forall>i. 1 \<le> i \<and> i < length pval \<longrightarrow> L ! i = int i) \<longrightarrow>
        Rvis h = replicate (length pval - 1) 0 \<and>
        (\<forall>i. 1 \<le> i \<and> i < length pval \<longrightarrow> alphai h ! i = gammai ! i * w0))
   \<and> (lordstar_dep_faster pval L gammai w0 alpha = Inr (p, l, a, d) \<and>
      (\<forall>i. 1 \<le> i \<and> i < length pval \<longrightarrow> L ! i = int i) \<longrightarrow>
        (\<forall>i. 1 \<le> i \<and> i < length pval \<longrightarrow> a ! i = gammai ! i * w0))
   \<and> (dep_step pval L gammai w0 alpha k u = Inr u' \<and> k - 1 - L ! nat k < 0 \<longrightarrow>
        Rvis u' = Rvis u @ [0])"
proof -
  have A: "Rvis h = replicate (length pval - 1) 0 \<and>
        (\<forall>i. 1 \<le> i \<and> i < length pval \<longrightarrow> alphai h ! i = gammai ! i * w0)"
    if "dep_run pval L gammai w0 alpha = Inr h"
      "\<forall>i. 1 \<le> i \<and> i < length pval \<longrightarrow> L ! i = int i"
    using dep_run_full_lag[OF that] by blast
  have B: "\<forall>i. 1 \<le> i \<and> i < length pval \<longrightarrow> a ! i = gammai ! i * w0"
    if "lordstar_dep_faster pval L gammai w0 alpha = Inr (p, l, a, d)"
      "\<forall>i. 1 \<le> i \<and> i < length pval \<longrightarrow> L ! i = int i"
  proof -
    from that(1) obtain h' where h': "dep_run pval L gammai w0 alpha = Inr h'" "a = alphai h'"
      by (auto simp: lordstar_dep_faster_eq_Inr)
    from dep_run_full_lag(2)[OF h'(1) that(2)] h'(2) show ?thesis by simp
  qed
  have C: "Rvis u' = Rvis u @ [0]"
    if "dep_step pval L gammai w0 alpha k u = Inr u'" "k - 1 - L ! nat k < 0"
    using dep_step_short_history[OF that] .
  show ?thesis
    using A B C by blast
qed

lemma ex_dep_full_lag:
  "dep_run [0, 0, 0, 0] [0, 1, 2, 3] [1/2, 1/4, 1/8, 1/16] (1/200) (1/20)
     = Inr \<lparr>alphai = [1/400, 1/800, 1/1600, 1/3200], R = [True, True, True, True],
            Rvis = [0, 0, 0]\<rparr>"
  by code_simp

lemma ex_dep_step:
  "dep_step [0, 0, 0, 0] [0, 1, 2, 3] [1/2, 1/4, 1/8, 1/16] (1/200) (1/20) 2
       \<lparr>alphai = [1/400, 1/800, 0, 0], R = [True, True, False, False], Rvis = [0]\<rparr>
     = Inr \<lparr>alphai = [1/400, 1/800, 1/1600, 0], R = [True, True, True, False],
            Rvis = [0, 0]\<rparr>"
  by code_simp

theorem dep_lag_beyond_history_witness:
  "dep_run [0, 0, 0, 0] [0, 1, 2, 3] [1/2, 1/4, 1/8, 1/16] (1/200) (1/20)
     = Inr \<lparr>alphai = [1/400, 1/800, 1/1600, 1/3200], R = [True, True, True, True],
            Rvis = [0, 0, 0]\<rparr>
   \<and> [0, 1, 2, 3] ! 1 = int 1 \<and> [0, 1, 2, 3] ! 2 = int 2 \<and> [0, 1, 2, 3] ! 3 = int 3
   \<and> [0, 0, 0] = replicate (length [0, 0, 0, 0 :: real] - 1) (0::int)
   \<and> [1/400, 1/800, 1/1600, 1/3200 :: real] ! 3 = [1/2, 1/4, 1/8, 1/16] ! 3 * (1/200)
   \<and> lordstar_dep_faster [0, 0, 0, 0] [0, 1, 2, 3] [1/2, 1/4, 1/8, 1/16] (1/200) (1/20)
     = Inr ([0, 0, 0, 0], [0, 1, 2, 3], [1/400, 1/800, 1/1600, 1/3200],
            [True, True, True, True])
   \<and> dep_step [0, 0, 0, 0] [0, 1, 2, 3] [1/2, 1/4, 1/8, 1/16] (1/200) (1/20) 2
       \<lparr>alphai = [1/400, 1/800, 0, 0], R = [True, True, False, False], Rvis = [0]\<rparr>
     = Inr \<lparr>alphai = [1/400, 1/800, 1/1600, 0], R = [True, True, True, False],
            Rvis = [0, 0]\<rparr>
   \<and> (2::int) - 1 - [0, 1, 2, 3] ! nat 2 < 0
   \<and> Rvis \<lparr>alphai = [1/400, 1/800, 1/1600, 0], R = [True, True, True, False],
            Rvis = [0, 0]\<rparr> = [0] @ [0]"
proof -
  have lag: "\<forall>i. 1 \<le> i \<and> i < length [0, 0, 0, 0 :: real] \<longrightarrow> [0, 1, 2, 3] ! i = int i"
  proof (intro allI impI)
    fix i :: nat assume "1 \<le> i \<and> i < length [0, 0, 0, 0 :: real]"
    then have "i = 1 \<or> i = 2 \<or> i = 3" by auto
    then show "[0, 1, 2, 3] ! i = int i" by auto
  qed
  have l: "[0, 1, 2, 3] ! 1 = int 1" "[0, 1, 2, 3] ! 2 = int 2" "[0, 1, 2, 3] ! 3 = int 3"
    by simp_all
  have e: "lordstar_dep_faster [0, 0, 0, 0] [0, 1, 2, 3] [1/2, 1/4, 1/8, 1/16] (1/200) (1/20)
     = Inr ([0, 0, 0, 0], [0, 1, 2, 3], [1/400, 1/800, 1/1600, 1/3200],
            [True, True, True, True])"
    by (simp add: lordstar_dep_faster_def ex_dep_full_lag)
  have s: "(2::int) - 1 - [0, 1, 2, 3] ! nat 2 < 0" by simp
  note t = dep_lag_beyond_history[of "[0, 0, 0, 0]" "[0, 1, 2, 3]" "[1/2, 1/4, 1/8, 1/16]"
      "1/200" "1/20"
      "\<lparr>alphai = [1/400, 1/800, 1/1600, 1/3200], R = [True, True, True, True],
            Rvis = [0, 0, 0]\<rparr>"
      "[0, 0, 0, 0]" "[0, 1, 2, 3]" "[1/400, 1/800, 1/1600, 1/3200]" "[True, True, True, True]"
      2 "\<lparr>alphai = [1/400, 1/800, 0, 0], R = [True, True, False, False], Rvis = [0]\<rparr>"
      "\<lparr>alphai = [1/400, 1/800, 1/1600, 0], R = [True, True, True, False],
            Rvis = [0, 0]\<rparr>"]
  from t e lag have "\<forall>i. 1 \<le> i \<and> i < length [0, 0, 0, 0 :: real] \<longrightarrow>
      [1/400, 1/800, 1/1600, 1/3200 :: real] ! i = [1/2, 1/4, 1/8, 1/16] ! i * (1/200)"
    by blast
  then have a: "[1/400, 1/800, 1/1600, 1/3200 :: real] ! 3 = [1/2, 1/4, 1/8, 1/16] ! 3 * (1/200)"
    by simp
  from t ex_dep_full_lag lag have
    "Rvis \<lparr>alphai = [1/400, 1/800, 1/1600, 1/3200], R = [True, True, True, True],
            Rvis = [0, 0, 0]\<rparr> = replicate (length [0, 0, 0, 0 :: real] - 1) 0"
    by blast
  then have v: "[0, 0, 0] = replicate (length [0, 0, 0, 0 :: real] - 1) (0::int)"
    by simp
  from t ex_dep_step s have
    "Rvis \<lparr>alphai = [1/400, 1/800, 1/1600, 0], R = [True, True, True, False],
            Rvis = [0, 0]\<rparr>
     = Rvis \<lparr>alphai = [1/400, 1/800, 0, 0], R = [True, True, False, False], Rvis = [0]\<rparr> @ [0]"
    by blast
  then have c: "Rvis \<lparr>alphai = [1/400, 1/800, 1/1600, 0], R = [True, True, True, False],
            Rvis = [0, 0]\<rparr> = [0] @ [0]"
    by simp
  show ?thesis
    by (intro conjI ex_dep_full_lag l v a e ex_dep_step s c)
qed

section \<open>Immediate visibility against zero lag\<close>

lemma for_loop_map:
  assumes "Inv i s"
    and "\<And>k u. i \<le> k \<Longrightarrow> k < n \<Longrightarrow> Inv k u \<Longrightarrow> body1 k (f u) = and_then (body2 k u) (\<lambda>x. Inr (f x))"
    and "\<And>k u u'. i \<le> k \<Longrightarrow> k < n \<Longrightarrow> Inv k u \<Longrightarrow> body2 k u = Inr u' \<Longrightarrow> Inv (k + 1) u'"
  shows "for_loop i n body1 (f s) = and_then (for_loop i n body2 s) (\<lambda>x. Inr (f x))"
  using assms
proof (induction i n body2 s rule: for_loop.induct)
  case (1 i n body2 s)
  show ?case
  proof (cases "i < n")
    case False
    then show ?thesis by (simp add: for_loop_done)
  next
    case True
    have b: "body1 i (f s) = and_then (body2 i s) (\<lambda>x. Inr (f x))"
      using "1.prems"(2)[of i s] True "1.prems"(1) by simp
    show ?thesis
    proof (cases "body2 i s")
      case (Inl e)
      with b True show ?thesis by (simp add: for_loop_unfold)
    next
      case (Inr s')
      have i': "Inv (i + 1) s'"
        using "1.prems"(3)[of i s s'] True "1.prems"(1) Inr by simp
      have "for_loop (i + 1) n body1 (f s') = and_then (for_loop (i + 1) n body2 s') (\<lambda>x. Inr (f x))"
      proof (rule "1.IH"[OF True Inr i'])
        fix k u assume "i + 1 \<le> k" "k < n" "Inv k u"
        then show "body1 k (f u) = and_then (body2 k u) (\<lambda>x. Inr (f x))"
          using "1.prems"(2)[of k u] by simp
      next
        fix k u u' assume "i + 1 \<le> k" "k < n" "Inv k u" "body2 k u = Inr u'"
        then show "Inv (k + 1) u'"
          using "1.prems"(3)[of k u u'] by simp
      qed
      with b Inr True show ?thesis by (simp add: for_loop_unfold)
    qed
  qed
qed

lemma for_loop_cong_range:
  assumes "\<And>k u. i \<le> k \<Longrightarrow> k < n \<Longrightarrow> body1 k u = body2 k u"
  shows "for_loop i n body1 s = for_loop i n body2 s"
proof -
  have e: "and_then m (\<lambda>x. Inr x) = m" for m :: "fault + 's"
    by (cases m) simp_all
  have "for_loop i n body1 s = and_then (for_loop i n body2 s) (\<lambda>x. Inr x)"
    by (rule for_loop_map[where Inv = "\<lambda>_ _. True" and f = "\<lambda>u. u"])
      (simp_all add: assms e)
  then show ?thesis by (simp add: e)
qed

lemma async_scan_immediate:
  assumes "0 \<le> j" and "j < i" and "i \<le> int (length E)" and "E ! nat j = j + 1"
  shows "async_scan Rv E i j cond = dep_scan Rv j cond"
proof (cases "rd Rv j")
  case (Inl e)
  then show ?thesis by (simp add: async_scan_def dep_scan_def)
next
  case (Inr rj)
  have "rd E j = Inr (j + 1)" using assms by (simp add: rd_def)
  with Inr assms(2) show ?thesis by (simp add: async_scan_def dep_scan_def)
qed

lemma async_step_immediate_eq_dep_step_zero_lag:
  assumes i: "1 \<le> i" "i < int (length pval)"
    and E: "length E = length pval" "\<forall>j<length pval. E ! j = int j + 1"
    and L: "length L = length pval" "\<forall>j<length pval. L ! j = 0"
  shows "async_step pval E gammai w0 alpha i h = dep_step pval L gammai w0 alpha i h"
proof -
  have rL: "rd L i = Inr 0" using i L by (simp add: rd_def)
  have scan: "for_loop 0 i (async_scan (R h) E i) 0 = for_loop 0 i (dep_scan (R h)) 0"
  proof (rule for_loop_cong_range)
    fix k u assume k: "0 \<le> k" "k < i"
    then have "nat k < length pval" using i by simp
    with E(2) have "E ! nat k = int (nat k) + 1" by blast
    then have "E ! nat k = k + 1" using k by simp
    then show "async_scan (R h) E i k u = dep_scan (R h) k u"
      using k i E(1) by (intro async_scan_immediate) simp_all
  qed
  have e: "(if m > 0 then invert_counts c m else []) = invert_counts c m" for c m
    by (simp add: invert_counts_empty)
  show ?thesis
    unfolding async_step_def dep_step_def Let_def e using i by (simp add: rL scan)
qed

lemma async_run_immediate_eq_dep_run_zero_lag:
  assumes n: "length pval \<noteq> 1"
    and E: "length E = length pval" "\<forall>j<length pval. E ! j = int j + 1"
    and L: "length L = length pval" "\<forall>j<length pval. L ! j = 0"
  shows "async_run pval E gammai w0 alpha = dep_run pval L gammai w0 alpha"
proof (cases "seed pval gammai w0")
  case (Inl e)
  then show ?thesis by (simp add: async_run_def dep_run_def Let_def)
next
  case (Inr h0)
  then have "pval \<noteq> []" by (simp add: seed_eq_Inr)
  then have "length pval \<noteq> 0" by simp
  with n have "2 \<le> length pval" by linarith
  then have w: "wr (replicate (length pval) (0::real)) 1 1
      = Inr ((replicate (length pval) 0)[1 := 1])"
    by (simp add: wr_def)
  have "for_loop 1 (int (length pval)) (async_step pval E gammai w0 alpha) h0
      = for_loop 1 (int (length pval)) (dep_step pval L gammai w0 alpha) h0"
    by (rule for_loop_cong_range)
      (rule async_step_immediate_eq_dep_step_zero_lag[OF _ _ E L])
  then show ?thesis
    by (simp add: async_run_def dep_run_def Let_def Inr w)
qed

text \<open>
  Apart from the single-test input, the async procedure with horizons \<open>E[j] = j + 1\<close> and
  the dependency procedure with lags 0 agree: same fault, or same thresholds and decisions.
\<close>

lemma async_immediate_eq_dep_zero_lag:
  assumes "length pval \<noteq> 1"
    and "length E = length pval" and "\<forall>j<length pval. E ! j = int j + 1"
    and "length L = length pval" and "\<forall>j<length pval. L ! j = 0"
  shows "lordstar_async_faster pval E gammai w0 alpha
       = and_then (lordstar_dep_faster pval L gammai w0 alpha) (\<lambda>(p, l, a, d). Inr (p, a, d))"
  unfolding lordstar_async_faster_def lordstar_dep_faster_def
    async_run_immediate_eq_dep_run_zero_lag[OF assms]
  by (cases "dep_run pval L gammai w0 alpha") simp_all

text \<open>
  C4. With one p-value, horizon \<open>E[0] = 1\<close> and lag \<open>L[0] = 0\<close>, the async procedure has
  no result (line 31 writes \<^verbatim>\<open>Rdectest[1]\<close> into a vector of length 1), while the
  dependency procedure returns the seeded threshold and its decision. So the two do not
  agree on this input.
\<close>

theorem async_dep_single_test_divergence:
  "lordstar_async_faster [1/5] [1] [2/5, 1/4] (1/200) (1/20) = Inl OutOfBounds
   \<and> lordstar_dep_faster [1/5] [0] [2/5, 1/4] (1/200) (1/20)
       = Inr ([1/5], [0], [1/500], [False])"
proof -
  have "lordstar_async_faster [1/5] [1] [2/5, 1/4] (1/200) (1/20) = Inl OutOfBounds"
    by code_simp
  moreover have "lordstar_dep_faster [1/5] [0] [2/5, 1/4] (1/200) (1/20)
       = Inr ([1/5], [0], [1/500], [False])"
    by code_simp
  ultimately show ?thesis by blast
qed

section \<open>Unit batches against zero lag\<close>

lemma dep_scan_loop:
  assumes "0 \<le> j" and "n \<le> int (length Rv)"
  shows "for_loop j n (dep_scan Rv) c
       = Inr (c + int (length (filter id (drop (nat j) (take (nat n) Rv)))))"
  using assms
proof (induction j n "dep_scan Rv" c rule: for_loop.induct)
  case (1 j n c)
  show ?case
  proof (cases "j < n")
    case False
    then show ?thesis by (simp add: for_loop_done)
  next
    case True
    have jl: "nat j < length (take (nat n) Rv)"
      using True "1.prems" by simp
    have b: "dep_scan Rv j c = Inr (if Rv ! nat j then c + 1 else c)"
      using True "1.prems" by (simp add: dep_scan_def rd_def)
    have d: "drop (nat j) (take (nat n) Rv)
           = Rv ! nat j # drop (nat (j + 1)) (take (nat n) Rv)"
      using Cons_nth_drop_Suc[OF jl, symmetric] jl "1.prems"(1)
      by (simp add: nat_add_distrib)
    have "for_loop (j + 1) n (dep_scan Rv) (if Rv ! nat j then c + 1 else c)
        = Inr ((if Rv ! nat j then c + 1 else c)
               + int (length (filter id (drop (nat (j + 1)) (take (nat n) Rv)))))"
      using "1.hyps"[OF True b] "1.prems" by simp
    then show ?thesis
      using True b by (simp add: for_loop_unfold d)
  qed
qed

lemma dep_scan_count:
  assumes "0 \<le> n" and "n \<le> int (length Rv)"
  shows "for_loop 0 n (dep_scan Rv) 0 = Inr (int (length (filter id (take (nat n) Rv))))"
  using dep_scan_loop[of 0 n Rv 0] assms by simp

lemma cumsum_from_nth:
  "j < length xs \<Longrightarrow> cumsum_from s xs ! j = s + sum_list (take (Suc j) xs)"
proof (induction xs arbitrary: s j)
  case Nil
  then show ?case by simp
next
  case (Cons x xs)
  then show ?case by (cases j) (simp_all add: add.assoc)
qed

lemma cumsum_from_length: "length (cumsum_from s xs) = length xs"
  by (induction xs arbitrary: s) simp_all

lemma count_singletons:
  "sum_list (map (\<lambda>row. int (length (filter id row))) (map (\<lambda>v. [v]) Rv))
     = int (length (filter id Rv))"
  by (induction Rv) simp_all

lemma rcum_unit_rows:
  "cumsum (rowSums (map (\<lambda>v. [v]) Rv))
     = map (\<lambda>j. int (length (filter id (take (Suc j) Rv)))) [0..<length Rv]"
proof (rule nth_equalityI)
  show "length (cumsum (rowSums (map (\<lambda>v. [v]) Rv)))
      = length (map (\<lambda>j. int (length (filter id (take (Suc j) Rv)))) [0..<length Rv])"
    by (simp add: cumsum_def cumsum_from_length rowSums_def)
next
  fix j assume "j < length (cumsum (rowSums (map (\<lambda>v. [v]) Rv)))"
  then have j: "j < length Rv"
    by (simp add: cumsum_def cumsum_from_length rowSums_def)
  have "cumsum (rowSums (map (\<lambda>v. [v]) Rv)) ! j
      = sum_list (take (Suc j) (map (\<lambda>row. int (length (filter id row))) (map (\<lambda>v. [v]) Rv)))"
    using j by (simp add: cumsum_def rowSums_def cumsum_from_nth)
  also have "\<dots> = sum_list (map (\<lambda>row. int (length (filter id row)))
                       (map (\<lambda>v. [v]) (take (Suc j) Rv)))"
    by (simp only: take_map)
  also have "\<dots> = int (length (filter id (take (Suc j) Rv)))"
    by (rule count_singletons)
  finally show "cumsum (rowSums (map (\<lambda>v. [v]) Rv)) ! j
      = map (\<lambda>j. int (length (filter id (take (Suc j) Rv)))) [0..<length Rv] ! j"
    using j by simp
qed

lemma count_take_mono:
  "a \<le> b \<Longrightarrow> length (filter id (take a Rv)) \<le> length (filter id (take b Rv))"
proof -
  assume "a \<le> b"
  then have "take b Rv = take a Rv @ drop a (take b Rv)"
    by (metis append_take_drop_id min.absorb1 take_take)
  then have "filter id (take b Rv) = filter id (take a Rv) @ filter id (drop a (take b Rv))"
    by (metis filter_append)
  then show ?thesis by simp
qed

lemma counts_sorted:
  "sorted (map (\<lambda>j. int (length (filter id (take (Suc j) Rv)))) [0..<n])"
  by (auto simp: sorted_iff_nth_mono intro: count_take_mono)

lemma count_take_unset:
  assumes "\<forall>j. k \<le> j \<and> j < length Rv \<longrightarrow> \<not> Rv ! j" and "k \<le> n"
  shows "filter id (take n Rv) = filter id (take k Rv)"
proof -
  have "take n Rv = take k Rv @ drop k (take n Rv)"
    using assms(2) by (metis append_take_drop_id min.absorb1 take_take)
  moreover have "filter id (drop k (take n Rv)) = []"
  proof -
    have "\<not> x" if "x \<in> set (drop k (take n Rv))" for x
    proof -
      from that obtain j where j: "j < length (drop k (take n Rv))"
        and x: "drop k (take n Rv) ! j = x"
        unfolding in_set_conv_nth by blast
      from j have kj: "k + j < n" "k + j < length Rv" by simp_all
      then have "drop k (take n Rv) ! j = Rv ! (k + j)" by simp
      moreover have "\<not> Rv ! (k + j)" using assms(1) kj by simp
      ultimately show ?thesis using x by simp
    qed
    then show ?thesis by (auto simp: filter_empty_conv)
  qed
  ultimately show ?thesis by (metis append_Nil2 filter_append)
qed

lemma sorted_Max_last:
  assumes "sorted (xs :: int list)" and "xs \<noteq> []"
  shows "Max (set xs) = last xs"
proof (rule Max_eqI)
  show "finite (set xs)" by simp
  show "last xs \<in> set xs" using assms(2) by simp
  fix y assume "y \<in> set xs"
  then obtain j where "j < length xs" "y = xs ! j" by (auto simp: in_set_conv_nth)
  then show "y \<le> last xs"
    using assms by (simp add: last_conv_nth sorted_nth_mono)
qed

lemma upper_bound_take:
  assumes s: "sorted c" and k: "k \<le> length c" and j: "j < k" "y < c ! j"
  shows "upper_bound (take k c) y = upper_bound c y"
proof -
  define z1 where "z1 = nat (upper_bound (take k c) y)"
  define z2 where "z2 = nat (upper_bound c y)"
  have s': "sorted (take k c)" using s by (rule sorted_wrt_take)
  from upper_bound_sorted[OF s', of y] k have
    p1: "0 \<le> upper_bound (take k c) y" "z1 \<le> k"
    and b1: "\<forall>i<z1. take k c ! i \<le> y"
    and a1: "\<forall>i. z1 \<le> i \<and> i < k \<longrightarrow> y < take k c ! i"
    unfolding z1_def by auto
  from upper_bound_sorted[OF s, of y] have
    p2: "0 \<le> upper_bound c y" "z2 \<le> length c"
    and b2: "\<forall>i<z2. c ! i \<le> y"
    and a2: "\<forall>i. z2 \<le> i \<and> i < length c \<longrightarrow> y < c ! i"
    unfolding z2_def by auto
  have z1j: "z1 \<le> j"
  proof (rule ccontr)
    assume "\<not> z1 \<le> j"
    then have "take k c ! j \<le> y" using b1 by simp
    with j show False by simp
  qed
  have z2j: "z2 \<le> j"
  proof (rule ccontr)
    assume "\<not> z2 \<le> j"
    then have "c ! j \<le> y" using b2 by simp
    with j show False by simp
  qed
  have "z1 = z2"
  proof (rule ccontr)
    assume "z1 \<noteq> z2"
    then consider "z1 < z2" | "z2 < z1" by linarith
    then show False
    proof cases
      case 1
      then have "c ! z1 \<le> y" using b2 by simp
      moreover have "y < take k c ! z1" using a1 z1j j by simp
      ultimately show False using z1j j by simp
    next
      case 2
      then have "take k c ! z2 \<le> y" using b1 by simp
      moreover have "y < c ! z2" using a2 z2j j k by simp
      ultimately show False using z2j j by simp
    qed
  qed
  then show ?thesis
    using p1 p2 by (simp add: z1_def z2_def)
qed

lemma and_then_assoc:
  "and_then (and_then m f) g = and_then m (\<lambda>x. and_then (f x) g)"
  by (cases m) simp_all

lemma for_loop_single: "for_loop i (i + 1) body s = body i s"
proof -
  have "for_loop i (i + 1) body s = and_then (body i s) (for_loop (i + 1) (i + 1) body)"
    by (simp add: for_loop_unfold)
  also have "\<dots> = body i s"
    by (cases "body i s") (simp_all add: for_loop_done)
  finally show ?thesis .
qed

lemma batch_gammaisum_unit:
  assumes "\<forall>z. 0 \<le> z \<and> z < int N \<longrightarrow> rd batchsum z = Inr (z + 1)"
    and "\<forall>z\<in>set rs. 0 \<le> z \<and> z < int N"
  shows "batch_gammaisum_loop gammai batchsum k rs acc = gammaisum_loop gammai k rs acc"
  using assms(2)
proof (induction rs arbitrary: acc)
  case Nil
  show ?case by simp
next
  case (Cons z rs)
  have "rd batchsum z = Inr (z + 1)" using assms(1) Cons.prems by simp
  moreover have "rd gammai (k - (z + 1)) = rd gammai (k - z - 1)"
    by (simp add: algebra_simps)
  ultimately show ?case using Cons by simp
qed

lemma batch_threshold_unit:
  assumes bs: "\<forall>z. 0 \<le> z \<and> z < int N \<longrightarrow> rd batchsum z = Inr (z + 1)"
    and k: "1 \<le> k" "k \<le> int N"
    and r: "\<forall>z\<in>set r. 0 \<le> z \<and> z < int N"
  shows "batch_threshold gammai batchsum w0 alpha k 0 r = threshold gammai w0 alpha k r"
proof -
  have b1: "rd batchsum (k - 1) = Inr k"
    using bs k by simp
  have g: "batch_gammaisum_loop gammai batchsum k (tl r) 0 = gammaisum_loop gammai k (tl r) 0"
  proof (rule batch_gammaisum_unit[OF bs])
    show "\<forall>z\<in>set (tl r). 0 \<le> z \<and> z < int N"
      using r by (cases r) simp_all
  qed
  have b0: "rd batchsum (r ! 0) = Inr (r ! 0 + 1)" if "r \<noteq> []"
  proof -
    from that have "r ! 0 \<in> set r" by simp
    with r bs show ?thesis by blast
  qed
  have e: "rd gammai (k - (r ! 0 + 1)) = rd gammai (k - r ! 0 - 1)"
    by (simp add: algebra_simps)
  show ?thesis
  proof (cases "r = []")
    case True
    then show ?thesis by (simp add: batch_threshold_def threshold_def b1)
  next
    case False
    then show ?thesis
      by (simp add: batch_threshold_def threshold_def b1 g b0[OF False] e)
  qed
qed

lemma seed_unit_rows:
  assumes "pval \<noteq> []"
  shows "batch0_body pval gammai w0 0
           \<lparr>alphaim = replicate (length pval) (replicate (nat 1) 0),
            Rm = replicate (length pval) (replicate (nat 1) False)\<rparr>
       = and_then (seed pval gammai w0) (\<lambda>h. Inr (unit_rows h))"
proof (cases "gammai = []")
  case True
  then show ?thesis by (simp add: batch0_body_def seed_def rd_def)
next
  case False
  from assms have n: "0 < length pval" by simp
  have u1: "(replicate (length pval) [0::real])[0 := [t]]
          = map (\<lambda>v. [v]) ((replicate (length pval) 0)[0 := t])" for t
    by (simp add: map_update)
  have u2: "(replicate (length pval) [False])[0 := [b]]
          = map (\<lambda>v. [v]) ((replicate (length pval) False)[0 := b])" for b
    by (simp add: map_update)
  show ?thesis
    using False assms n
    by (simp add: batch0_body_def seed_def rd_def wr_def mrd_def mwr_def Let_def unit_rows_def
        u1 u2)
qed

lemma dep_step_zero_lag_counts:
  assumes inv: "hist_inv pval gammai w0 alpha k u"
    and V: "Rvis u = map (\<lambda>j. int (length (filter id (take (Suc j) (R u))))) [0..<k - 1]"
    and k: "1 \<le> k" "k < length pval"
    and L: "length L = length pval" "\<forall>j<length pval. L ! j = 0"
    and st: "dep_step pval L gammai w0 alpha (int k) u = Inr u'"
  shows "hist_inv pval gammai w0 alpha (Suc k) u' \<and>
         Rvis u' = map (\<lambda>j. int (length (filter id (take (Suc j) (R u'))))) [0..<k]"
proof -
  from inv have len: "length (R u) = length pval"
    unfolding hist_inv_def by (elim conjE)
  have Lk: "L ! nat (int k) = 0" using L k by simp
  from st obtain cond m where
    c: "for_loop 0 (int k) (dep_scan (R u)) 0 = Inr cond"
    and m: "maxv (Rvis u @ [cond]) = Inr m"
    and d: "decide pval gammai w0 alpha (int k) (Rvis u @ [cond])
          (invert_counts (Rvis u @ [cond]) m) u = Inr u'"
    unfolding dep_step_eq_Inr Lk using k by auto
  have cond: "cond = int (length (filter id (take k (R u))))"
    using c dep_scan_count[of "int k" "R u"] k len by simp
  have inv': "hist_inv pval gammai w0 alpha (Suc k) u'"
    using decide_hist_inv[OF inv m d] .
  from d have R': "R u' = (R u)[k := (pval ! k \<le> alphai u' ! k)]"
    and V': "Rvis u' = Rvis u @ [cond]"
    by (auto simp: decide_eq_Inr)
  have same: "take (Suc j) (R u') = take (Suc j) (R u)" if "j < k" for j
    using that by (simp add: R')
  obtain k' where k': "k = Suc k'" using k by (cases k) simp_all
  have "Rvis u' = map (\<lambda>j. int (length (filter id (take (Suc j) (R u))))) [0..<k]"
    unfolding V' V cond k' by simp
  also have "\<dots> = map (\<lambda>j. int (length (filter id (take (Suc j) (R u'))))) [0..<k]"
    by (rule map_cong) (simp_all add: same)
  finally show ?thesis using inv' by simp
qed

lemma unit_rows_write:
  assumes "k < length (alphai u)" and "k < length (R u)"
  shows "mwr (alphaim (unit_rows u)) (int k) 0 t = Inr (map (\<lambda>v. [v]) ((alphai u)[k := t]))"
    and "mrd (map (\<lambda>v. [v]) ((alphai u)[k := t])) (int k) 0 = Inr t"
    and "mwr (Rm (unit_rows u)) (int k) 0 b = Inr (map (\<lambda>v. [v]) ((R u)[k := b]))"
  using assms by (simp_all add: mwr_def mrd_def rd_def wr_def unit_rows_def map_update)

lemma batch_step_unit_sim:
  assumes inv: "hist_inv pval gammai w0 alpha k u"
    and V: "Rvis u = map (\<lambda>j. int (length (filter id (take (Suc j) (R u))))) [0..<k - 1]"
    and k: "1 \<le> k" "k < length pval"
    and B: "length batch = length pval" "\<forall>j<length pval. batch ! j = 1"
    and S: "length batchsum = length pval" "\<forall>j<length pval. batchsum ! j = int j + 1"
    and L: "length L = length pval" "\<forall>j<length pval. L ! j = 0"
  shows "batch_step pval batch batchsum gammai w0 alpha (int k) (unit_rows u)
       = and_then (dep_step pval L gammai w0 alpha (int k) u) (\<lambda>x. Inr (unit_rows x))"
proof -
  define N where "N = length pval"
  define cnt where "cnt = (\<lambda>j. int (length (filter id (take (Suc j) (R u)))))"
  define cb where "cb = map cnt [0..<N]"
  define cd where "cd = map cnt [0..<k]"
  from inv have len: "length (alphai u) = N" "length (R u) = N"
    and unset: "\<forall>j. k \<le> j \<and> j < length pval \<longrightarrow> \<not> R u ! j"
    unfolding hist_inv_def N_def by blast+
  obtain k' where k': "k = Suc k'" using k by (cases k) simp_all
  have kN: "k < N" "k \<le> N" using k by (simp_all add: N_def)
  \<comment> \<open>the two count sequences\<close>
  have rcum: "cumsum (rowSums (Rm (unit_rows u))) = cb"
    by (simp add: unit_rows_def rcum_unit_rows cb_def cnt_def len)
  have "for_loop 0 (int k) (dep_scan (R u)) 0
      = Inr (int (length (filter id (take (nat (int k)) (R u)))))"
    using kN len by (intro dep_scan_count) simp_all
  then have cond: "for_loop 0 (int k) (dep_scan (R u)) 0 = Inr (cnt k')"
    unfolding nat_int by (simp add: cnt_def k')
  have Rlag: "Rvis u @ [cnt k'] = cd"
    unfolding V cd_def cnt_def k' by simp
  have cd_take: "cd = take k cb"
    using kN by (simp add: cd_def cb_def take_map)
  have sb: "sorted cb" unfolding cb_def cnt_def by (rule counts_sorted)
  have sd: "sorted cd" unfolding cd_def cnt_def by (rule counts_sorted)
  have neb: "cb \<noteq> []" using kN by (simp add: cb_def)
  have ned: "cd \<noteq> []" by (simp add: cd_def k')
  have lastd: "last cd = cnt k'"
    by (simp add: cd_def k')
  have lastb: "last cb = cnt k'"
  proof -
    obtain N' where N': "N = Suc N'" using kN by (cases N) simp_all
    have "last cb = cnt N'" by (simp add: cb_def N')
    also have "\<dots> = cnt k'"
    proof -
      have "\<forall>j. k \<le> j \<and> j < length (R u) \<longrightarrow> \<not> R u ! j"
        using unset len by (simp add: N_def)
      from count_take_unset[OF this, of "Suc N'"] kN
      have "filter id (take (Suc N') (R u)) = filter id (take (Suc k') (R u))"
        by (simp add: N' k')
      then show ?thesis by (simp add: cnt_def)
    qed
    finally show ?thesis .
  qed
  have md: "maxv cd = Inr (cnt k')"
    using sorted_Max_last[OF sd ned] ned by (simp add: maxv_eq_Inr lastd)
  have mb: "maxv cb = Inr (cnt k')"
    using sorted_Max_last[OF sb neb] neb by (simp add: maxv_eq_Inr lastb)
  \<comment> \<open>the two inversions\<close>
  have inv_eq: "invert_counts cb (cnt k') = invert_counts cd (cnt k')"
    unfolding invert_counts_def
  proof (rule map_cong[OF refl])
    fix y assume "y \<in> set [0..cnt k' - 1]"
    then have y: "y < cnt k'" by simp
    have "cb ! k' = cnt k'" using kN by (simp add: cb_def k')
    with y have "y < cb ! k'" by simp
    from upper_bound_take[OF sb _ _ this, of k] kN
    show "upper_bound cb y = upper_bound cd y"
      by (simp add: cd_take cb_def k')
  qed
  define r where "r = invert_counts cd (cnt k')"
  have r_range: "\<forall>z\<in>set r. 0 \<le> z \<and> z < int N"
  proof
    fix z assume "z \<in> set r"
    then obtain y where y: "y < cnt k'" and z: "z = upper_bound cd y"
      by (auto simp: r_def invert_counts_def)
    have "0 \<le> upper_bound cd y"
      using upper_bound_sorted[OF sd] by blast
    moreover have "upper_bound cd y < int (length cd)"
      using upper_bound_below_length[OF sd md y] .
    moreover have "length cd = k" by (simp add: cd_def)
    ultimately show "0 \<le> z \<and> z < int N" using z kN by simp
  qed
  \<comment> \<open>the two thresholds\<close>
  have bs: "\<forall>z. 0 \<le> z \<and> z < int N \<longrightarrow> rd batchsum z = Inr (z + 1)"
  proof (intro allI impI)
    fix z assume z: "0 \<le> z \<and> z < int N"
    then have z': "0 \<le> z" "z < int (length pval)" by (simp_all add: N_def)
    then have "nat z < length pval" by linarith
    with S(2) have "batchsum ! nat z = int (nat z) + 1" by blast
    with z' S(1) show "rd batchsum z = Inr (z + 1)" by (simp add: rd_def)
  qed
  have thr: "batch_threshold gammai batchsum w0 alpha (int k) 0 r
           = threshold gammai w0 alpha (int k) r"
    using batch_threshold_unit[OF bs _ _ r_range, of "int k"] k kN by simp
  \<comment> \<open>the dependency step\<close>
  have rL: "rd L (int k) = Inr 0" using L k by (simp add: rd_def)
  have dep: "dep_step pval L gammai w0 alpha (int k) u
           = decide pval gammai w0 alpha (int k) cd r u"
    unfolding dep_step_def Let_def rL and_then_Inr
    using k by (simp add: cond Rlag md r_def)
  have dec: "decide pval gammai w0 alpha (int k) cd r u
      = and_then (threshold gammai w0 alpha (int k) r) (\<lambda>t.
          Inr \<lparr>alphai = (alphai u)[k := t], R = (R u)[k := (pval ! k \<le> t)], Rvis = cd\<rparr>)"
    unfolding decide_def using kN len k by (simp add: wr_def rd_def N_def)
  \<comment> \<open>the batch step\<close>
  have rb: "rd batch (int k) = Inr 1" using B k by (simp add: rd_def)
  have rs: "rd batchsum (int k - 1) = Inr (int k)"
    using bs kN k by simp
  have rp: "rd pval (int k) = Inr (pval ! k)" using k by (simp add: rd_def)
  have e: "(if 0 < cnt k' then invert_counts cb (cnt k') else []) = r"
    by (simp add: inv_eq r_def invert_counts_empty)
  have w: "mwr (alphaim (unit_rows u)) (int k) 0 t = Inr (map (\<lambda>v. [v]) ((alphai u)[k := t]))"
    "mrd (map (\<lambda>v. [v]) ((alphai u)[k := t])) (int k) 0 = Inr t"
    "mwr (Rm (unit_rows u)) (int k) 0 b = Inr (map (\<lambda>v. [v]) ((R u)[k := b]))" for t b
    using unit_rows_write[of k u] kN len by simp_all
  have body: "batch_body pval batchsum gammai w0 alpha (int k) cb 0 (unit_rows u)
      = and_then (threshold gammai w0 alpha (int k) r) (\<lambda>t.
          Inr \<lparr>alphaim = map (\<lambda>v. [v]) ((alphai u)[k := t]),
               Rm = map (\<lambda>v. [v]) ((R u)[k := (pval ! k \<le> t)])\<rparr>)"
    unfolding batch_body_def Let_def mb
    by (simp add: e thr w rs rp)
  have bat: "batch_step pval batch batchsum gammai w0 alpha (int k) (unit_rows u)
      = batch_body pval batchsum gammai w0 alpha (int k) cb 0 (unit_rows u)"
    unfolding batch_step_def Let_def rcum
    using for_loop_single[of 0 "batch_body pval batchsum gammai w0 alpha (int k) cb"]
    by (simp add: rb)
  show ?thesis
    unfolding bat body dep dec
    by (cases "threshold gammai w0 alpha (int k) r") (simp_all add: unit_rows_def)
qed

lemma batch_unit_eq_dep_run:
  assumes ne: "pval \<noteq> []"
    and B: "length batch = length pval" "\<forall>j<length pval. batch ! j = 1"
    and S: "length batchsum = length pval" "\<forall>j<length pval. batchsum ! j = int j + 1"
    and L: "length L = length pval" "\<forall>j<length pval. L ! j = 0"
  shows "lordstar_batch_faster pval batch batchsum gammai w0 alpha
       = and_then (dep_run pval L gammai w0 alpha) (\<lambda>h. Inr (unit_rows h))"
proof -
  have n: "0 < length pval" using ne by simp
  have batch: "batch = replicate (length pval) 1"
    using B by (simp add: list_eq_iff_nth_eq)
  have M: "maxv batch = Inr 1"
    unfolding batch maxv_eq_Inr using n by simp
  have r0: "rd batch 0 = Inr 1" using B n by (simp add: rd_def)
  have l0: "for_loop 0 1 (batch0_body pval gammai w0)
        \<lparr>alphaim = replicate (length pval) [0], Rm = replicate (length pval) [False]\<rparr>
      = and_then (seed pval gammai w0) (\<lambda>h. Inr (unit_rows h))"
    using for_loop_single[of 0 "batch0_body pval gammai w0"] seed_unit_rows[OF ne]
    by simp
  have loop: "for_loop 1 (int (length pval)) (batch_step pval batch batchsum gammai w0 alpha)
        (unit_rows h0)
      = and_then (for_loop 1 (int (length pval)) (dep_step pval L gammai w0 alpha) h0)
          (\<lambda>x. Inr (unit_rows x))"
    if s: "seed pval gammai w0 = Inr h0" for h0
  proof (rule for_loop_map[where Inv = "\<lambda>k u. hist_inv pval gammai w0 alpha (nat k) u \<and>
      Rvis u = map (\<lambda>j. int (length (filter id (take (Suc j) (R u))))) [0..<nat k - 1]"])
    show "hist_inv pval gammai w0 alpha (nat 1) h0 \<and>
      Rvis h0 = map (\<lambda>j. int (length (filter id (take (Suc j) (R h0))))) [0..<nat 1 - 1]"
      using seed_hist_inv[OF s] s by (simp add: seed_eq_Inr)
  next
    fix k u
    assume k: "1 \<le> k" "k < int (length pval)"
      and inv: "hist_inv pval gammai w0 alpha (nat k) u \<and>
        Rvis u = map (\<lambda>j. int (length (filter id (take (Suc j) (R u))))) [0..<nat k - 1]"
    have k': "1 \<le> nat k" "nat k < length pval" using k by linarith+
    from batch_step_unit_sim[OF _ _ k' B S L, of gammai w0 alpha u] inv k
    show "batch_step pval batch batchsum gammai w0 alpha k (unit_rows u)
        = and_then (dep_step pval L gammai w0 alpha k u) (\<lambda>x. Inr (unit_rows x))"
      by simp
  next
    fix k u u'
    assume k: "1 \<le> k" "k < int (length pval)"
      and inv: "hist_inv pval gammai w0 alpha (nat k) u \<and>
        Rvis u = map (\<lambda>j. int (length (filter id (take (Suc j) (R u))))) [0..<nat k - 1]"
      and st: "dep_step pval L gammai w0 alpha k u = Inr u'"
    have k': "1 \<le> nat k" "nat k < length pval" using k by linarith+
    have e: "nat (k + 1) = Suc (nat k)" using k by linarith
    from dep_step_zero_lag_counts[OF _ _ k' L, of gammai w0 alpha u u'] inv st k
    show "hist_inv pval gammai w0 alpha (nat (k + 1)) u' \<and>
        Rvis u' = map (\<lambda>j. int (length (filter id (take (Suc j) (R u'))))) [0..<nat (k + 1) - 1]"
      unfolding e by simp
  qed
  show ?thesis
  proof (cases "seed pval gammai w0")
    case (Inl e)
    then show ?thesis
      unfolding lordstar_batch_faster_def dep_run_def Let_def M r0 B(1)
      by (simp add: l0)
  next
    case (Inr h0)
    then show ?thesis
      unfolding lordstar_batch_faster_def dep_run_def Let_def M r0 B(1)
      by (simp add: l0 loop[OF Inr])
  qed
qed

lemma unit_rows_concat:
  "concat (alphaim (unit_rows h)) = alphai h" "concat (Rm (unit_rows h)) = R h"
  by (simp_all add: unit_rows_def)

text \<open>
  C5. For a non-empty \<open>pval\<close>, the batch procedure with every batch size 1 and
  \<open>batchsum = [1, 2, \<dots>, N]\<close>, its two matrices read row after row, and the dependency
  procedure with every lag 0 end in the same way: both with the same fault, or both with
  the same thresholds and the same decisions. For an empty \<open>pval\<close> neither returns a
  result.
\<close>

theorem batch_unit_sizes_eq_dep_zero_lag:
  "(pval \<noteq> [] \<longrightarrow>
      and_then (lordstar_batch_faster pval (replicate (length pval) 1)
                  (map (\<lambda>j. int j + 1) [0..<length pval]) gammai w0 alpha)
        (\<lambda>s. Inr (concat (alphaim s), concat (Rm s)))
      = and_then (lordstar_dep_faster pval (replicate (length pval) 0) gammai w0 alpha)
          (\<lambda>(p, l, a, d). Inr (a, d)))
   \<and> (pval = [] \<longrightarrow>
      lordstar_batch_faster pval (replicate (length pval) 1)
          (map (\<lambda>j. int j + 1) [0..<length pval]) gammai w0 alpha = Inl EmptyMax
      \<and> lordstar_dep_faster pval (replicate (length pval) 0) gammai w0 alpha
          = Inl OutOfBounds)"
proof (intro conjI impI)
  assume ne: "pval \<noteq> []"
  have "lordstar_batch_faster pval (replicate (length pval) 1)
          (map (\<lambda>j. int j + 1) [0..<length pval]) gammai w0 alpha
      = and_then (dep_run pval (replicate (length pval) 0) gammai w0 alpha)
          (\<lambda>h. Inr (unit_rows h))"
    by (rule batch_unit_eq_dep_run[OF ne]) simp_all
  then show "and_then (lordstar_batch_faster pval (replicate (length pval) 1)
                  (map (\<lambda>j. int j + 1) [0..<length pval]) gammai w0 alpha)
        (\<lambda>s. Inr (concat (alphaim s), concat (Rm s)))
      = and_then (lordstar_dep_faster pval (replicate (length pval) 0) gammai w0 alpha)
          (\<lambda>(p, l, a, d). Inr (a, d))"
    unfolding lordstar_dep_faster_def
    by (cases "dep_run pval (replicate (length pval) 0) gammai w0 alpha")
      (simp_all add: unit_rows_concat)
next
  assume "pval = []"
  then show "lordstar_batch_faster pval (replicate (length pval) 1)
          (map (\<lambda>j. int j + 1) [0..<length pval]) gammai w0 alpha = Inl EmptyMax"
    by (simp add: lordstar_batch_faster_def)
next
  assume "pval = []"
  then show "lordstar_dep_faster pval (replicate (length pval) 0) gammai w0 alpha
          = Inl OutOfBounds"
    by (cases gammai) (simp_all add: lordstar_dep_faster_def dep_run_def seed_def rd_def wr_def)
qed

lemma ex_batch_unit:
  "lordstar_batch_faster [1/1000, 1/5, 3/100, 1/2, 1/50] [1, 1, 1, 1, 1] [1, 2, 3, 4, 5]
       [2/5, 1/4, 3/20, 1/10, 1/10] (1/200) (1/20)
     = Inr \<lparr>alphaim = [[1/500], [77/4000], [3/250], [29/4000], [1/200]],
            Rm = [[True], [False], [False], [False], [False]]\<rparr>"
  by code_simp

theorem batch_unit_sizes_eq_dep_zero_lag_witness:
  "[1/1000, 1/5, 3/100, 1/2, 1/50 :: real] \<noteq> []
   \<and> lordstar_batch_faster [1/1000, 1/5, 3/100, 1/2, 1/50] [1, 1, 1, 1, 1] [1, 2, 3, 4, 5]
       [2/5, 1/4, 3/20, 1/10, 1/10] (1/200) (1/20)
     = Inr \<lparr>alphaim = [[1/500], [77/4000], [3/250], [29/4000], [1/200]],
            Rm = [[True], [False], [False], [False], [False]]\<rparr>
   \<and> and_then (lordstar_dep_faster [1/1000, 1/5, 3/100, 1/2, 1/50] [0, 0, 0, 0, 0]
                 [2/5, 1/4, 3/20, 1/10, 1/10] (1/200) (1/20))
         (\<lambda>(p, l, a, d). Inr (a, d))
     = Inr ([1/500, 77/4000, 3/250, 29/4000, 1/200], [True, False, False, False, False])
   \<and> lordstar_batch_faster [] [] [] [2/5, 1/4] (1/200) (1/20) = Inl EmptyMax
   \<and> lordstar_dep_faster [] [] [2/5, 1/4] (1/200) (1/20) = Inl OutOfBounds"
proof -
  have ne: "[1/1000, 1/5, 3/100, 1/2, 1/50 :: real] \<noteq> []" by simp
  have b: "replicate (length [1/1000, 1/5, 3/100, 1/2, 1/50 :: real]) (1::int) = [1, 1, 1, 1, 1]"
    by code_simp
  have s: "map (\<lambda>j. int j + 1) [0..<length [1/1000, 1/5, 3/100, 1/2, 1/50 :: real]]
      = [1, 2, 3, 4, 5]"
    by code_simp
  have l: "replicate (length [1/1000, 1/5, 3/100, 1/2, 1/50 :: real]) (0::int) = [0, 0, 0, 0, 0]"
    by code_simp
  from batch_unit_sizes_eq_dep_zero_lag[of "[1/1000, 1/5, 3/100, 1/2, 1/50]"
      "[2/5, 1/4, 3/20, 1/10, 1/10]" "1/200" "1/20"] ne
  have "and_then (lordstar_batch_faster [1/1000, 1/5, 3/100, 1/2, 1/50] [1, 1, 1, 1, 1]
            [1, 2, 3, 4, 5] [2/5, 1/4, 3/20, 1/10, 1/10] (1/200) (1/20))
          (\<lambda>s. Inr (concat (alphaim s), concat (Rm s)))
      = and_then (lordstar_dep_faster [1/1000, 1/5, 3/100, 1/2, 1/50] [0, 0, 0, 0, 0]
                 [2/5, 1/4, 3/20, 1/10, 1/10] (1/200) (1/20))
          (\<lambda>(p, l, a, d). Inr (a, d))"
    unfolding b s l by blast
  then have d: "and_then (lordstar_dep_faster [1/1000, 1/5, 3/100, 1/2, 1/50] [0, 0, 0, 0, 0]
                 [2/5, 1/4, 3/20, 1/10, 1/10] (1/200) (1/20))
         (\<lambda>(p, l, a, d). Inr (a, d))
     = Inr ([1/500, 77/4000, 3/250, 29/4000, 1/200], [True, False, False, False, False])"
    unfolding ex_batch_unit by simp
  from batch_unit_sizes_eq_dep_zero_lag[of "[]" "[2/5, 1/4]" "1/200" "1/20"]
  have e: "lordstar_batch_faster [] (replicate (length ([] :: real list)) 1)
          (map (\<lambda>j. int j + 1) [0..<length ([] :: real list)]) [2/5, 1/4] (1/200) (1/20)
        = Inl EmptyMax
      \<and> lordstar_dep_faster [] (replicate (length ([] :: real list)) 0) [2/5, 1/4]
          (1/200) (1/20) = Inl OutOfBounds"
    by blast
  from e have e1: "lordstar_batch_faster [] [] [] [2/5, 1/4] (1/200) (1/20) = Inl EmptyMax"
    by simp
  from e have e2: "lordstar_dep_faster [] [] [2/5, 1/4] (1/200) (1/20) = Inl OutOfBounds"
    by simp
  show ?thesis
    by (intro conjI ne ex_batch_unit d e1 e2)
qed

section \<open>Inputs that lead outside a vector\<close>

























text \<open>
  A dependency run whose lag grows by more than one: step 2 has lag 2 after a visible
  rejection at step 1, the counts are \<open>[1, 0]\<close>, the binary search returns the end
  position 2 and the age index is \<open>2 - 2 - 1 = -1\<close>.
\<close>

lemma dep_growing_lag_negative_age:
  "invert_counts [1, 0] 1 = [2]
   \<and> lordstar_dep_faster [0, 1, 1] [0, 0, 2] [1/2, 1/4, 1/8] (1/200) (1/20) = Inl OutOfBounds"
proof -
  have "invert_counts [1, 0] 1 = [2]" by code_simp
  moreover have
    "lordstar_dep_faster [0, 1, 1] [0, 0, 2] [1/2, 1/4, 1/8] (1/200) (1/20) = Inl OutOfBounds"
    by code_simp
  ultimately show ?thesis by blast
qed




end
